theory Spec2Isabelle
  imports Complex_Main "HOL-Library.Signed_Division" "HOL-Library.Multiset" "HOL-Library.Log_Nat"
begin

chapter \<open>The program\<close>

section \<open>Numbers, time and identities\<close>

text \<open>
  The program is TypeScript. Times and levels, which the program computes from its time
  source and from constants, are modelled as \<open>real\<close> (rounding is left out), and tick, beat,
  bar and phrase counters as \<open>int\<close>. Remainders of counters are JavaScript's truncating
  \<open>%\<close>, written \<open>smod\<close>; \<open>Math.floor(a / b)\<close> is written as the floor of the real quotient, as
  the source computes it.

  Where a \<open>number\<close> comes from a caller (the tempo given to the clock, the counts given to
  the node tracker) it is a \<open>jsnum\<close>: \<open>NaN\<close>, an infinity or a finite number \<open>Num r\<close>, where
  \<open>r\<close> ranges over the reals and so over the doubles. The sums and differences of the node
  tracker are rounded to doubles, as IEEE 754 does. The sign of zero is not modelled.

  Objects compared by reference (clock listeners) are modelled by an identity of type
  \<open>lid\<close>.
\<close>

type_synonym lid = nat

datatype jsnum = NaN | PInf | NInf | Num real

text \<open>\<open>Math.min\<close> and \<open>Math.max\<close> of two numbers: \<open>NaN\<close> when either is.\<close>

fun Math_min :: "jsnum \<Rightarrow> jsnum \<Rightarrow> jsnum" where
  "Math_min NaN y = NaN"
| "Math_min x NaN = NaN"
| "Math_min NInf y = NInf"
| "Math_min x NInf = NInf"
| "Math_min PInf y = y"
| "Math_min x PInf = x"
| "Math_min (Num a) (Num b) = Num (min a b)"

fun Math_max :: "jsnum \<Rightarrow> jsnum \<Rightarrow> jsnum" where
  "Math_max NaN y = NaN"
| "Math_max x NaN = NaN"
| "Math_max PInf y = PInf"
| "Math_max x PInf = PInf"
| "Math_max NInf y = y"
| "Math_max x NInf = x"
| "Math_max (Num a) (Num b) = Num (max a b)"

text \<open>
  JavaScript's \<open>/\<close>, with the quotient of two finite numbers taken in the reals (not
  rounded): this is the division of the clock's time arithmetic. Dividing by zero gives an
  infinity, or \<open>NaN\<close> for \<open>0 / 0\<close>.
\<close>

fun ideal_div :: "jsnum \<Rightarrow> jsnum \<Rightarrow> jsnum" where
  "ideal_div NaN y = NaN"
| "ideal_div x NaN = NaN"
| "ideal_div (Num a) (Num b) =
     (if b \<noteq> 0 then Num (a / b) else if a = 0 then NaN else if 0 < a then PInf else NInf)"
| "ideal_div (Num a) y = Num 0"
| "ideal_div PInf (Num b) = (if 0 \<le> b then PInf else NInf)"
| "ideal_div NInf (Num b) = (if 0 \<le> b then NInf else PInf)"
| "ideal_div x y = NaN"

section \<open>The clock (src/clock.ts)\<close>

datatype kind = OnTick | OnBeat | OnBar | OnPhrase

text \<open>
  What a listener callback may do to the clock while it runs: the clock's public mutators.
\<close>

datatype cmd = Subscribe lid | Unsubscribe lid | SetBpm jsnum

text \<open>
  A listener has up to four optional callbacks (\<open>onTick?\<close>, \<open>onBeat?\<close>, \<open>onBar?\<close>,
  \<open>onPhrase?\<close>). A callback that is present is given by the clock calls it makes, as a
  function of its two arguments.
\<close>

type_synonym handlers = "lid \<Rightarrow> kind \<Rightarrow> (int \<Rightarrow> real \<Rightarrow> cmd list) option"

text \<open>
  The record of one callback invocation: the listener, which callback, its first argument
  (the tick, beat, bar or phrase number), the loop variable \<open>tick\<close> of the iteration that made
  the call, and its second argument (the time).
\<close>

record fired =
  ev_listener :: lid
  ev_kind :: kind
  ev_index :: int
  ev_tick :: int
  ev_time :: real

record clock =
  bpm :: jsnum
  currentTick :: int
  currentBeat :: int
  currentBar :: int
  currentPhrase :: int
  listeners :: "lid list"
  intervalId :: bool
  startTime :: real

definition ticksPerBeat :: int where
  "ticksPerBeat = 4"

definition beatsPerBar :: int where
  "beatsPerBar = 4"

definition barsPerPhrase :: int where
  "barsPerPhrase = 4"

text \<open>The constructor stores the tempo as given; the timer is not armed (\<open>intervalId\<close> unset).\<close>

definition new_Clock :: "jsnum \<Rightarrow> clock" where
  "new_Clock b =
     \<lparr>bpm = b, currentTick = 0, currentBeat = 0, currentBar = 0, currentPhrase = 0,
      listeners = [], intervalId = False, startTime = 0\<rparr>"

definition tickDuration :: "clock \<Rightarrow> jsnum" where
  "tickDuration c = ideal_div (ideal_div (Num 60) (bpm c)) (Num (of_int ticksPerBeat))"

definition beatDuration :: "clock \<Rightarrow> jsnum" where
  "beatDuration c = ideal_div (Num 60) (bpm c)"

definition subscribe :: "lid \<Rightarrow> clock \<Rightarrow> clock" where
  "subscribe l c = c\<lparr>listeners := listeners c @ [l]\<rparr>"

text \<open>\<open>Array.prototype.indexOf\<close>: the first index holding the value, or \<open>-1\<close>.\<close>

fun indexOf :: "'a list \<Rightarrow> 'a \<Rightarrow> int" where
  "indexOf [] x = - 1"
| "indexOf (y # ys) x =
     (if y = x then 0 else (let i = indexOf ys x in if i < 0 then - 1 else i + 1))"

text \<open>\<open>splice(idx, 1)\<close> for an index that is in range: the element at \<open>idx\<close> is removed.\<close>

definition splice1 :: "'a list \<Rightarrow> int \<Rightarrow> 'a list" where
  "splice1 xs idx = take (nat idx) xs @ drop (Suc (nat idx)) xs"

definition unsubscribe :: "lid \<Rightarrow> clock \<Rightarrow> clock" where
  "unsubscribe l c =
     (let idx = indexOf (listeners c) l
      in if idx \<ge> 0 then c\<lparr>listeners := splice1 (listeners c) idx\<rparr> else c)"

definition setBpm :: "jsnum \<Rightarrow> clock \<Rightarrow> clock" where
  "setBpm b c = c\<lparr>bpm := Math_max (Num 60) (Math_min (Num 140) b)\<rparr>"

definition getBpm :: "clock \<Rightarrow> jsnum" where
  "getBpm c = bpm c"

fun apply_cmd :: "cmd \<Rightarrow> clock \<Rightarrow> clock" where
  "apply_cmd (Subscribe l) c = subscribe l c"
| "apply_cmd (Unsubscribe l) c = unsubscribe l c"
| "apply_cmd (SetBpm b) c = setBpm b c"

text \<open>
  An optional call \<open>l.onX?.(i, t)\<close> made while the loop variable is \<open>tick\<close>: nothing happens
  when the listener has no such callback; otherwise the call is recorded and the callback's
  clock calls take effect, in order.
\<close>

definition invoke ::
  "handlers \<Rightarrow> int \<Rightarrow> lid \<Rightarrow> kind \<Rightarrow> int \<Rightarrow> real \<Rightarrow> clock \<times> fired list \<Rightarrow> clock \<times> fired list"
where
  "invoke hs tick l k i t s =
     (case hs l k of
        None \<Rightarrow> s
      | Some h \<Rightarrow>
          (fold apply_cmd (h i t) (fst s),
           snd s @ [\<lparr>ev_listener = l, ev_kind = k, ev_index = i, ev_tick = tick, ev_time = t\<rparr>]))"

text \<open>The body of the arrow function given to \<open>this.listeners.forEach\<close>.\<close>

definition deliver ::
  "handlers \<Rightarrow> int \<Rightarrow> real \<Rightarrow> int \<Rightarrow> int \<Rightarrow> int \<Rightarrow> int \<Rightarrow> int \<Rightarrow> int \<Rightarrow> lid
     \<Rightarrow> clock \<times> fired list \<Rightarrow> clock \<times> fired list"
where
  "deliver hs tick tickStartTime tickInBeat beat beatInBar bar barInPhrase phrase l s =
     (let s1 = invoke hs tick l OnTick tick tickStartTime s;
          s2 = (if tickInBeat = 0 then invoke hs tick l OnBeat beat tickStartTime s1 else s1);
          s3 = (if tickInBeat = 0 \<and> beatInBar = 0
                then invoke hs tick l OnBar bar tickStartTime s2 else s2)
      in if tickInBeat = 0 \<and> beatInBar = 0 \<and> barInPhrase = 0
         then invoke hs tick l OnPhrase phrase tickStartTime s3 else s3)"

text \<open>
  \<open>Array.prototype.forEach\<close> on the live \<open>listeners\<close> array: the length is read once, before
  the first call; then for each index below it, in increasing order, the element found at
  that index in the array as it is at that moment is passed to the callback, and an index
  that is no longer in the array is passed over. \<open>forEach_from n k\<close> is the rest of the
  iteration at index \<open>k\<close> with \<open>n\<close> indices left.
\<close>

primrec forEach_from ::
  "nat \<Rightarrow> nat \<Rightarrow> (lid \<Rightarrow> clock \<times> fired list \<Rightarrow> clock \<times> fired list)
     \<Rightarrow> clock \<times> fired list \<Rightarrow> clock \<times> fired list"
where
  "forEach_from 0 k f s = s"
| "forEach_from (Suc n) k f s =
     forEach_from n (Suc k) f
       (if k < length (listeners (fst s)) then f (listeners (fst s) ! k) s else s)"

definition forEach ::
  "(lid \<Rightarrow> clock \<times> fired list \<Rightarrow> clock \<times> fired list)
     \<Rightarrow> clock \<times> fired list \<Rightarrow> clock \<times> fired list"
where
  "forEach f s = forEach_from (length (listeners (fst s))) 0 f s"

text \<open>The body of the \<open>for\<close> loop of \<open>schedule\<close>, for one value of \<open>tick\<close>.\<close>

definition fire_tick :: "handlers \<Rightarrow> real \<Rightarrow> int \<Rightarrow> clock \<times> fired list \<Rightarrow> clock \<times> fired list" where
  "fire_tick hs tickTime tick s =
     (let tickStartTime = startTime (fst s) + of_int tick * tickTime;
          tickInBeat = tick smod ticksPerBeat;
          beat = \<lfloor>(of_int tick :: real) / of_int ticksPerBeat\<rfloor>;
          beatInBar = beat smod beatsPerBar;
          bar = \<lfloor>(of_int beat :: real) / of_int beatsPerBar\<rfloor>;
          barInPhrase = bar smod barsPerPhrase;
          phrase = \<lfloor>(of_int bar :: real) / of_int barsPerPhrase\<rfloor>;
          s' = forEach
                 (deliver hs tick tickStartTime tickInBeat beat beatInBar bar barInPhrase phrase) s
      in ((fst s')\<lparr>currentTick := tick, currentBeat := beat, currentBar := bar,
                    currentPhrase := phrase\<rparr>,
          snd s'))"

text \<open>
  One session of \<open>start()\<close>: the clock, the closure variable \<open>lastScheduledTick\<close> (\<open>None\<close>
  when it holds \<open>NaN\<close>), and the record of every callback invocation so far.
\<close>

record session =
  clk :: clock
  lastScheduledTick :: "int option"
  trace :: "fired list"

definition scheduleAhead :: real where
  "scheduleAhead = 0.1"

text \<open>
  One scheduling pass; \<open>now\<close> is what \<open>this.getTime()\<close> returns. The \<open>for\<close> loop runs over
  \<open>lastScheduledTick + 1, ..., targetTick\<close>, both bounds fixed before it starts.

  With a tick duration that is \<open>NaN\<close> (a tempo that is \<open>NaN\<close>), \<open>targetTick\<close> is \<open>NaN\<close>: the
  loop's condition \<open>tick <= targetTick\<close> is false at once, and \<open>NaN\<close> is stored in
  \<open>lastScheduledTick\<close>. With \<open>NaN\<close> in \<open>lastScheduledTick\<close> the loop variable starts as \<open>NaN\<close>
  and the condition is false as well.

  A tempo of 0 or an infinite tempo, which only the constructor can store, makes the tick
  duration infinite or zero; the source then computes \<open>NaN\<close> times or an unbounded target,
  and the model does not follow it there (an infinite duration is treated as \<open>NaN\<close>, a zero
  one by the division of the reals). The properties below are about tempi other than these.
\<close>

definition schedule :: "handlers \<Rightarrow> real \<Rightarrow> session \<Rightarrow> session" where
  "schedule hs now s =
     (let elapsed = now - startTime (clk s)
      in case tickDuration (clk s) of
           Num tickTime \<Rightarrow>
             (let currentTickFloat = elapsed / tickTime;
                  targetTick = \<lfloor>currentTickFloat + scheduleAhead / tickTime\<rfloor>;
                  r = (case lastScheduledTick s of
                         Some lastTick \<Rightarrow>
                           fold (fire_tick hs tickTime) [lastTick + 1..targetTick] (clk s, trace s)
                       | None \<Rightarrow> (clk s, trace s))
              in \<lparr>clk = fst r, lastScheduledTick = Some targetTick, trace = snd r\<rparr>)
         | _ \<Rightarrow> s\<lparr>lastScheduledTick := None\<rparr>)"

text \<open>
  \<open>start()\<close>: \<open>t0\<close> is the time read for \<open>startTime\<close>, \<open>now\<close> the time read by the pass that
  \<open>start\<close> runs at once after arming the interval timer.
\<close>

definition start :: "handlers \<Rightarrow> real \<Rightarrow> real \<Rightarrow> clock \<Rightarrow> session" where
  "start hs t0 now c =
     schedule hs now
       \<lparr>clk = c\<lparr>startTime := t0, currentTick := 0, currentBeat := 0, currentBar := 0,
                 currentPhrase := 0, intervalId := True\<rparr>,
        lastScheduledTick = Some (- 1), trace = []\<rparr>"

definition stop :: "clock \<Rightarrow> clock" where
  "stop c = (if intervalId c then c\<lparr>intervalId := False\<rparr> else c)"

text \<open>
  What happens to a running session: the interval timer runs a pass (reading \<open>now\<close>), or
  code outside the callbacks calls one of the clock's mutators, or \<open>stop()\<close>. A pass of a
  timer that \<open>stop()\<close> has cleared does not run.
\<close>

datatype event = Pass real | Call cmd | Stop

fun step :: "handlers \<Rightarrow> event \<Rightarrow> session \<Rightarrow> session" where
  "step hs (Pass now) s = (if intervalId (clk s) then schedule hs now s else s)"
| "step hs (Call c) s = s\<lparr>clk := apply_cmd c (clk s)\<rparr>"
| "step hs Stop s = s\<lparr>clk := stop (clk s)\<rparr>"

definition run :: "handlers \<Rightarrow> event list \<Rightarrow> session \<Rightarrow> session" where
  "run hs evs s = fold (step hs) evs s"

section \<open>Addition of doubles\<close>

text \<open>
  The node tracker adds and subtracts the numbers it is given, and JavaScript's numbers are
  IEEE 754 doubles: the sum of two finite doubles is the real sum rounded to the nearest
  double, ties to the one with an even significand, and to an infinity from \<open>2^1024 - 2^970\<close>
  on. A finite double is an integer multiple of its binade's spacing: \<open>2^(e - 52)\<close> for a
  magnitude in \<open>[2^e, 2^(e + 1))\<close>, and \<open>2^(-1074)\<close> below \<open>2^(-1022)\<close>.
\<close>

text \<open>Rounding a real to the nearest integer, ties to the even one.\<close>

definition round_half_even :: "real \<Rightarrow> int" where
  "round_half_even q =
     (let f = \<lfloor>q\<rfloor>; d = q - of_int f
      in if d < 1 / 2 then f else if 1 / 2 < d then f + 1 else if even f then f else f + 1)"

text \<open>The \<open>e\<close> with \<open>2^e \<le> a < 2^(e + 1)\<close>, for a positive \<open>a\<close>.\<close>

definition ilog2 :: "real \<Rightarrow> int" where
  "ilog2 a = (if 1 \<le> a then bitlen \<lfloor>a\<rfloor> - 1 else - bitlen (\<lceil>1 / a\<rceil> - 1))"

text \<open>The spacing of the doubles around a positive \<open>a\<close>.\<close>

definition ulp_of :: "real \<Rightarrow> real" where
  "ulp_of a = 2 powi (max (ilog2 a) (- 1022) - 52)"

text \<open>The double nearest to a real, or the infinity it overflows to.\<close>

definition dbl_round :: "real \<Rightarrow> jsnum" where
  "dbl_round x =
     (if x = 0 then Num 0
      else (let r = of_int (round_half_even (\<bar>x\<bar> / ulp_of \<bar>x\<bar>)) * ulp_of \<bar>x\<bar>
            in if 2 powi 1024 \<le> r then (if 0 < x then PInf else NInf)
               else Num (sgn x * r)))"

fun num_neg :: "jsnum \<Rightarrow> jsnum" where
  "num_neg NaN = NaN"
| "num_neg PInf = NInf"
| "num_neg NInf = PInf"
| "num_neg (Num a) = Num (- a)"

text \<open>JavaScript's \<open>+\<close> and \<open>-\<close> on numbers.\<close>

fun num_add :: "jsnum \<Rightarrow> jsnum \<Rightarrow> jsnum" where
  "num_add NaN y = NaN"
| "num_add x NaN = NaN"
| "num_add PInf NInf = NaN"
| "num_add NInf PInf = NaN"
| "num_add PInf y = PInf"
| "num_add x PInf = PInf"
| "num_add NInf y = NInf"
| "num_add x NInf = NInf"
| "num_add (Num a) (Num b) = dbl_round (a + b)"

definition num_sub :: "jsnum \<Rightarrow> jsnum \<Rightarrow> jsnum" where
  "num_sub x y = num_add x (num_neg y)"

section \<open>The node tracker (diagnostics module)\<close>

record node_counter =
  created :: jsnum
  cleaned :: jsnum

definition new_NodeCounter :: node_counter where
  "new_NodeCounter = \<lparr>created = Num 0, cleaned = Num 0\<rparr>"

text \<open>\<open>create(count = 1)\<close> and \<open>cleanup(count = 1)\<close>: an omitted argument is \<open>None\<close>.\<close>

definition count_arg :: "jsnum option \<Rightarrow> jsnum" where
  "count_arg a = (case a of None \<Rightarrow> Num 1 | Some n \<Rightarrow> n)"

definition create :: "jsnum option \<Rightarrow> node_counter \<Rightarrow> node_counter" where
  "create a nc = nc\<lparr>created := num_add (created nc) (count_arg a)\<rparr>"

definition cleanup :: "jsnum option \<Rightarrow> node_counter \<Rightarrow> node_counter" where
  "cleanup a nc = nc\<lparr>cleaned := num_add (cleaned nc) (count_arg a)\<rparr>"

definition getActive :: "node_counter \<Rightarrow> jsnum" where
  "getActive nc = num_sub (created nc) (cleaned nc)"

record stats =
  stat_created :: jsnum
  stat_cleaned :: jsnum
  stat_active :: jsnum

definition getStats :: "node_counter \<Rightarrow> stats" where
  "getStats nc =
     \<lparr>stat_created = created nc, stat_cleaned = cleaned nc,
      stat_active = num_sub (created nc) (cleaned nc)\<rparr>"

definition reset :: "node_counter \<Rightarrow> node_counter" where
  "reset nc = nc\<lparr>created := Num 0, cleaned := Num 0\<rparr>"

datatype counter_call = Create "jsnum option" | Cleanup "jsnum option"

fun counter_step :: "counter_call \<Rightarrow> node_counter \<Rightarrow> node_counter" where
  "counter_step (Create a) nc = create a nc"
| "counter_step (Cleanup a) nc = cleanup a nc"

definition counter_run :: "counter_call list \<Rightarrow> node_counter \<Rightarrow> node_counter" where
  "counter_run calls nc = fold counter_step calls nc"

text \<open>The counts passed to \<open>create\<close>, and those passed to \<open>cleanup\<close>, in call order.\<close>

fun create_counts :: "counter_call list \<Rightarrow> jsnum list" where
  "create_counts [] = []"
| "create_counts (Create a # cs) = count_arg a # create_counts cs"
| "create_counts (Cleanup a # cs) = create_counts cs"

fun cleanup_counts :: "counter_call list \<Rightarrow> jsnum list" where
  "cleanup_counts [] = []"
| "cleanup_counts (Create a # cs) = cleanup_counts cs"
| "cleanup_counts (Cleanup a # cs) = count_arg a # cleanup_counts cs"

section \<open>The modulator (src/modulation.ts)\<close>

text \<open>
  \<open>createNoise2D\<close> comes from the package \<open>simplex-noise\<close>, which is not part of the
  repository. It is taken as a parameter: given the values its \<open>random\<close> argument returns, call
  after call, it yields the noise function of two coordinates.
\<close>

type_synonym noise_lib = "(nat \<Rightarrow> real) \<Rightarrow> real \<Rightarrow> real \<Rightarrow> real"

record modulator_config =
  base :: real
  range_m :: real
  speed :: real
  seed :: "real option"

record modulator =
  noise2D :: "real \<Rightarrow> real \<Rightarrow> real"
  config :: modulator_config
  offset :: real

text \<open>
  The constructor. \<open>rnd\<close> gives the values \<open>Math.random()\<close> returns to the calls made inside
  \<open>createNoise2D\<close> (used only when the configuration has no seed: the \<open>random\<close> argument is
  \<open>() => config.seed ?? Math.random()\<close>), and \<open>u\<close> the value it returns for the offset.
\<close>

definition new_Modulator :: "noise_lib \<Rightarrow> modulator_config \<Rightarrow> (nat \<Rightarrow> real) \<Rightarrow> real \<Rightarrow> modulator" where
  "new_Modulator createNoise2D cfg rnd u =
     \<lparr>noise2D = createNoise2D (\<lambda>i. case seed cfg of Some s \<Rightarrow> s | None \<Rightarrow> rnd i),
      config = cfg,
      offset = u * 1000\<rparr>"

definition getValue :: "modulator \<Rightarrow> real \<Rightarrow> real" where
  "getValue m t =
     (let noiseValue = noise2D m (t * speed (config m)) (offset m)
      in base (config m) + noiseValue * range_m (config m))"

definition getNormalized :: "modulator \<Rightarrow> real \<Rightarrow> real" where
  "getNormalized m t =
     (let noiseValue = noise2D m (t * speed (config m)) (offset m)
      in (noiseValue + 1) / 2)"

definition setBase :: "real \<Rightarrow> modulator \<Rightarrow> modulator" where
  "setBase b m = m\<lparr>config := (config m)\<lparr>base := b\<rparr>\<rparr>"

definition setRange :: "real \<Rightarrow> modulator \<Rightarrow> modulator" where
  "setRange r m = m\<lparr>config := (config m)\<lparr>range_m := r\<rparr>\<rparr>"

definition setSpeed :: "real \<Rightarrow> modulator \<Rightarrow> modulator" where
  "setSpeed v m = m\<lparr>config := (config m)\<lparr>speed := v\<rparr>\<rparr>"

datatype mod_call = SetBase real | SetRange real | SetSpeed real

fun mod_step :: "mod_call \<Rightarrow> modulator \<Rightarrow> modulator" where
  "mod_step (SetBase b) m = setBase b m"
| "mod_step (SetRange r) m = setRange r m"
| "mod_step (SetSpeed v) m = setSpeed v m"

text \<open>
  A call on a modulator, as a client makes it: one of the two queries, which return a number
  and assign to nothing, or one of the three setters, which return nothing.
\<close>

datatype mod_op = CallGetValue real | CallGetNormalized real | CallSetter mod_call

fun mod_op_step :: "mod_op \<Rightarrow> modulator \<Rightarrow> real option \<times> modulator" where
  "mod_op_step (CallGetValue t) m = (Some (getValue m t), m)"
| "mod_op_step (CallGetNormalized t) m = (Some (getNormalized m t), m)"
| "mod_op_step (CallSetter c) m = (None, mod_step c m)"

text \<open>A sequence of calls on one modulator: what each call returned, and the modulator after them.\<close>

fun mod_exec :: "mod_op list \<Rightarrow> modulator \<Rightarrow> real option list \<times> modulator" where
  "mod_exec [] m = ([], m)"
| "mod_exec (c # cs) m =
     (let r = mod_op_step c m;
          rest = mod_exec cs (snd r)
      in (fst r # fst rest, snd rest))"



definition ModPresets_slow :: "real \<Rightarrow> real \<Rightarrow> modulator_config" where
  "ModPresets_slow b r = \<lparr>base = b, range_m = r, speed = 0.05, seed = None\<rparr>"

definition ModPresets_medium :: "real \<Rightarrow> real \<Rightarrow> modulator_config" where
  "ModPresets_medium b r = \<lparr>base = b, range_m = r, speed = 0.2, seed = None\<rparr>"

definition ModPresets_fast :: "real \<Rightarrow> real \<Rightarrow> modulator_config" where
  "ModPresets_fast b r = \<lparr>base = b, range_m = r, speed = 0.8, seed = None\<rparr>"

section \<open>Stopping a layer (texture, pad and beat layers)\<close>

text \<open>
  The sound sources are objects of the package \<open>node-web-audio-api\<close>, which is not part of
  the repository. A call that may throw returns a sum: \<open>Inl\<close> is the exception that leaves
  the call, \<open>Inr\<close> the state after a normal return. The \<open>stop()\<close> of a source is a
  parameter \<open>stop_node\<close> of that type, over any type \<open>'n\<close> of source states.
\<close>

text \<open>
  \<open>try { body } catch { }\<close>: an exception of the body is dropped, and the state is then the
  one before the body.
\<close>

definition try_catch_ignore :: "'e + 's \<Rightarrow> 's \<Rightarrow> 'e + 's" where
  "try_catch_ignore body before = (case body of Inl e \<Rightarrow> Inr before | Inr after \<Rightarrow> Inr after)"

text \<open>\<open>src?.stop()\<close> on a field that may be \<open>null\<close>.\<close>

definition optional_stop :: "('n \<Rightarrow> 'e + 'n) \<Rightarrow> 'n option \<Rightarrow> 'e + 'n option" where
  "optional_stop stop_node src =
     (case src of
        None \<Rightarrow> Inr None
      | Some n \<Rightarrow> (case stop_node n of Inl e \<Rightarrow> Inl e | Inr n' \<Rightarrow> Inr (Some n')))"

text \<open>
  \<open>forEach\<close> over an array that the callback does not change, with a callback that may throw:
  the first exception ends the iteration.
\<close>

fun forEach_nodes :: "('n \<Rightarrow> 'e + 'n) \<Rightarrow> 'n list \<Rightarrow> 'e + 'n list" where
  "forEach_nodes f [] = Inr []"
| "forEach_nodes f (x # xs) =
     (case f x of
        Inl e \<Rightarrow> Inl e
      | Inr x' \<Rightarrow> (case forEach_nodes f xs of Inl e \<Rightarrow> Inl e | Inr xs' \<Rightarrow> Inr (x' # xs')))"

text \<open>
  The callbacks that \<open>stop()\<close> hands to \<open>setTimeout\<close>: \<open>TextureLayer.stop\<close> (delay 3500 ms, on
  \<open>noiseSource\<close>), \<open>PadLayer.stop\<close> (3500 ms, on every element of \<open>oscillators\<close>) and
  \<open>BeatLayer.stop\<close> (2500 ms, on \<open>subOsc\<close>). Their argument is the state the sources are in
  when the timer fires.
\<close>

definition texture_hard_stop :: "('n \<Rightarrow> 'e + 'n) \<Rightarrow> 'n option \<Rightarrow> 'e + 'n option" where
  "texture_hard_stop stop_node noiseSource =
     try_catch_ignore (optional_stop stop_node noiseSource) noiseSource"

definition pad_hard_stop :: "('n \<Rightarrow> 'e + 'n) \<Rightarrow> 'n list \<Rightarrow> 'e + 'n list" where
  "pad_hard_stop stop_node oscillators =
     forEach_nodes (\<lambda>osc. try_catch_ignore (stop_node osc) osc) oscillators"

definition beat_hard_stop :: "('n \<Rightarrow> 'e + 'n) \<Rightarrow> 'n option \<Rightarrow> 'e + 'n option" where
  "beat_hard_stop stop_node subOsc =
     try_catch_ignore (optional_stop stop_node subOsc) subOsc"

text \<open>
  The Web Audio rule for \<open>AudioScheduledSourceNode.stop()\<close>, as the source's comments expect
  it (``source may not have started''): it throws on a source that was never started.
\<close>

datatype source_state = Unstarted | Playing | Ended

datatype dom_exception = InvalidStateError

fun web_audio_stop :: "source_state \<Rightarrow> dom_exception + source_state" where
  "web_audio_stop Unstarted = Inl InvalidStateError"
| "web_audio_stop Playing = Inr Ended"
| "web_audio_stop Ended = Inr Ended"

section \<open>The pad layer's chord change\<close>

text \<open>
  \<open>engine.state\<close>, of which the pad layer reads \<open>root\<close> and \<open>scale\<close>. The engine module is not
  part of the sources at hand; the two fields are taken with the types their uses show
  (MIDI note number, list of scale intervals).
\<close>

record engine_state =
  root_note :: int
  scale :: "int list"

text \<open>
  Reading a JavaScript array: an index outside the array gives \<open>undefined\<close>, here \<open>None\<close>.
  Adding \<open>undefined\<close> to a number gives \<open>NaN\<close>, again \<open>None\<close>.
\<close>

definition js_nth :: "'a list \<Rightarrow> int \<Rightarrow> 'a option" where
  "js_nth xs i = (if 0 \<le> i \<and> i < int (length xs) then Some (xs ! nat i) else None)"

definition js_plus :: "int \<Rightarrow> int option \<Rightarrow> int option" where
  "js_plus a b = (case b of None \<Rightarrow> None | Some v \<Rightarrow> Some (a + v))"

text \<open>
  The pad layer's own state, as far as chords go: the chord, one entry per oscillator
  started (its note and its detune), and the phrase counter.
\<close>

record pad_layer =
  currentChord :: "int option list"
  oscillators :: "(int option \<times> int) list"
  phraseCount :: int

definition buildChord :: "engine_state \<Rightarrow> pad_layer \<Rightarrow> pad_layer" where
  "buildChord st p =
     (let root = root_note st; sc = scale st
      in p\<lparr>currentChord :=
            [Some root,
             js_plus root (js_nth sc 2),
             js_plus root (js_nth sc (min 4 (int (length sc) - 1))),
             Some (root + 12)]\<rparr>)"

text \<open>
  \<open>startOscillators\<close> stops the oscillators it holds (each in a \<open>try\<close> with an empty \<open>catch\<close>)
  and starts three per chord note, detuned by 0, -7 and 7 cents.
\<close>

definition startOscillators :: "pad_layer \<Rightarrow> pad_layer" where
  "startOscillators p =
     p\<lparr>oscillators := concat (map (\<lambda>note. map (\<lambda>detune. (note, detune)) [0, - 7, 7]) (currentChord p))\<rparr>"

definition intervals :: "int list" where
  "intervals = [0, 5, 7, - 5]"

text \<open>
  \<open>onPhrase\<close>; \<open>u1\<close> and \<open>u2\<close> are the values of its two \<open>Math.random()\<close> calls, which lie in
  \<open>[0, 1)\<close>, so that the index into \<open>intervals\<close> is in range. The result holds the interval
  handed to the deferred callback when one is scheduled (after 4500 ms).
\<close>

definition pad_onPhrase :: "real \<Rightarrow> real \<Rightarrow> pad_layer \<Rightarrow> pad_layer \<times> int option" where
  "pad_onPhrase u1 u2 p =
     (let p1 = p\<lparr>phraseCount := phraseCount p + 1\<rparr>
      in if phraseCount p1 \<ge> 6 \<and> u1 < 0.3
         then (let p2 = p1\<lparr>phraseCount := 0\<rparr>;
                   interval = intervals ! nat \<lfloor>u2 * of_nat (length intervals)\<rfloor>
               in if interval \<noteq> 0 then (p2, Some interval) else (p2, None))
         else (p1, None))"

text \<open>
  The deferred callback, in the four steps of the source: the root is set to the shifted,
  clamped value; the chord is rebuilt and the oscillators restarted from it; the root is set
  back. \<open>chord_mutation_mid\<close> is the state between the third and the fourth step.
\<close>

definition chord_mutation_mid :: "int \<Rightarrow> engine_state \<times> pad_layer \<Rightarrow> engine_state \<times> pad_layer" where
  "chord_mutation_mid interval s =
     (let state = fst s;
          newRoot = root_note state + interval;
          state1 = state\<lparr>root_note := max 36 (min 60 newRoot)\<rparr>
      in (state1, startOscillators (buildChord state1 (snd s))))"

definition chord_mutation :: "int \<Rightarrow> engine_state \<times> pad_layer \<Rightarrow> engine_state \<times> pad_layer" where
  "chord_mutation interval s =
     (let oldRoot = root_note (fst s);
          s1 = chord_mutation_mid interval s
      in ((fst s1)\<lparr>root_note := oldRoot\<rparr>, snd s1))"

text \<open>
  For stating what one execution of the \<open>forEach\<close> callback does for a listener: the four
  calls in the order of the source's statements, of which those are made whose condition
  holds and whose callback the listener has; and the clock calls those callbacks make.
\<close>

definition due :: "int \<Rightarrow> int \<Rightarrow> int \<Rightarrow> kind \<Rightarrow> bool" where
  "due tickInBeat beatInBar barInPhrase k =
     (case k of
        OnTick \<Rightarrow> True
      | OnBeat \<Rightarrow> tickInBeat = 0
      | OnBar \<Rightarrow> tickInBeat = 0 \<and> beatInBar = 0
      | OnPhrase \<Rightarrow> tickInBeat = 0 \<and> beatInBar = 0 \<and> barInPhrase = 0)"

definition due_calls ::
  "handlers \<Rightarrow> int \<Rightarrow> real \<Rightarrow> int \<Rightarrow> int \<Rightarrow> int \<Rightarrow> int \<Rightarrow> int \<Rightarrow> int \<Rightarrow> lid \<Rightarrow> fired list"
where
  "due_calls hs tick t tickInBeat beat beatInBar bar barInPhrase phrase l =
     filter (\<lambda>e. due tickInBeat beatInBar barInPhrase (ev_kind e) \<and> hs l (ev_kind e) \<noteq> None)
       [\<lparr>ev_listener = l, ev_kind = OnTick, ev_index = tick, ev_tick = tick, ev_time = t\<rparr>,
        \<lparr>ev_listener = l, ev_kind = OnBeat, ev_index = beat, ev_tick = tick, ev_time = t\<rparr>,
        \<lparr>ev_listener = l, ev_kind = OnBar, ev_index = bar, ev_tick = tick, ev_time = t\<rparr>,
        \<lparr>ev_listener = l, ev_kind = OnPhrase, ev_index = phrase, ev_tick = tick, ev_time = t\<rparr>]"

definition due_cmds ::
  "handlers \<Rightarrow> int \<Rightarrow> real \<Rightarrow> int \<Rightarrow> int \<Rightarrow> int \<Rightarrow> int \<Rightarrow> int \<Rightarrow> int \<Rightarrow> lid \<Rightarrow> cmd list"
where
  "due_cmds hs tick t tickInBeat beat beatInBar bar barInPhrase phrase l =
     concat (map (\<lambda>e. case hs l (ev_kind e) of None \<Rightarrow> [] | Some h \<Rightarrow> h (ev_index e) (ev_time e))
       (due_calls hs tick t tickInBeat beat beatInBar bar barInPhrase phrase l))"



section \<open>Transient sound units (src/layers/beat.ts, src/layers/arp.ts)\<close>

text \<open>
  A transient unit, as far as its lifetime goes: the number of audio nodes it registers with
  \<open>nodeCounter.create\<close>, the times given to its oscillators' \<open>start\<close> and \<open>stop\<close>, the time of the
  last point of its gain envelope, and the delay in milliseconds given to \<open>setTimeout\<close> for
  its teardown callback, which disconnects the nodes and calls \<open>nodeCounter.cleanup\<close> with
  the same count. Frequencies, waveforms and levels have no part in it and are left out.
\<close>

record transient =
  nodes :: int
  startsAt :: real
  envelopeEnd :: real
  stopsAt :: real
  cleanupDelay :: real

text \<open>
  The fields of a drum kit that the beat layer's timing reads; \<open>pattern\<close> holds the sixteen
  steps that \<open>getPattern(kit.pattern)\<close> returns.
\<close>

record kick_params =
  attack :: real
  decay :: real
  noiseAmount :: real
  clickAmount :: real

record drum_kit =
  pattern :: "bool list"
  kick :: kick_params
  ghostVelocity :: real
  swing :: real

definition four_on_floor :: "bool list" where
  "four_on_floor =
     [True, False, False, False, True, False, False, False,
      True, False, False, False, True, False, False, False]"

text \<open>The second entry of \<open>DRUM_KITS\<close>.\<close>

definition techno_kit :: drum_kit where
  "techno_kit =
     \<lparr>pattern = four_on_floor,
      kick = \<lparr>attack = 0.001, decay = 0.2, noiseAmount = 0.1, clickAmount = 0.4\<rparr>,
      ghostVelocity = 0.15, swing = 0\<rparr>"

definition playClick :: "real \<Rightarrow> real \<Rightarrow> transient" where
  "playClick time velocity =
     \<lparr>nodes = 2, startsAt = time, envelopeEnd = time + 0.012, stopsAt = time + 0.02,
      cleanupDelay = 50\<rparr>"

definition playNoiseTransient :: "real \<Rightarrow> real \<Rightarrow> transient" where
  "playNoiseTransient time velocity =
     \<lparr>nodes = 6, startsAt = time, envelopeEnd = time + 0.04, stopsAt = time + 0.05,
      cleanupDelay = 100\<rparr>"

text \<open>\<open>playKick\<close> creates the kick itself and, when the kit asks for them, a click and a noise burst.\<close>

definition playKick :: "drum_kit \<Rightarrow> real \<Rightarrow> real \<Rightarrow> transient list" where
  "playKick kit time velocity =
     \<lparr>nodes = 2, startsAt = time, envelopeEnd = time + decay (kick kit),
      stopsAt = time + decay (kick kit) + 0.05,
      cleanupDelay = (decay (kick kit) + 0.1) * 1000\<rparr>
     # (if clickAmount (kick kit) > 0 then [playClick time (velocity * clickAmount (kick kit))] else [])
     @ (if noiseAmount (kick kit) > 0
        then [playNoiseTransient time (velocity * noiseAmount (kick kit))] else [])"

definition playGhostKick :: "drum_kit \<Rightarrow> real \<Rightarrow> transient" where
  "playGhostKick kit time =
     \<lparr>nodes = 2, startsAt = time, envelopeEnd = time + 0.08, stopsAt = time + 0.12,
      cleanupDelay = 150\<rparr>"

text \<open>\<open>BeatLayer.onTick\<close>: the transient units it creates.\<close>

definition beat_onTick :: "drum_kit \<Rightarrow> modulator \<Rightarrow> int \<Rightarrow> real \<Rightarrow> transient list" where
  "beat_onTick kit ghostMod tick time =
     (let patternIndex = tick smod int (length (pattern kit));
          swingOffset = (if swing kit > 0 \<and> patternIndex smod 2 = 1 then swing kit * 0.02 else 0);
          actualTime = time + swingOffset
      in if js_nth (pattern kit) patternIndex = Some True
         then playKick kit actualTime 0.55
         else (let ghostChance = getNormalized ghostMod time;
                   isGhostPosition = (patternIndex = 2 \<or> patternIndex = 6
                                      \<or> patternIndex = 10 \<or> patternIndex = 14)
               in if isGhostPosition \<and> ghostChance > 0.55
                  then [playGhostKick kit actualTime] else []))"

text \<open>
  \<open>ArpLayer.playNote\<close>, for a layer that has a preset: \<open>n_layers\<close> is the number of
  oscillator layers of the preset, \<open>noteDurationFactor\<close> its \<open>noteDuration\<close> field and
  \<open>config_bpm\<close> is \<open>engine.config.bpm\<close>.
\<close>

definition arp_playNote :: "nat \<Rightarrow> real \<Rightarrow> real \<Rightarrow> real \<Rightarrow> transient" where
  "arp_playNote n_layers noteDurationFactor config_bpm time =
     (let beatDuration = 60 / config_bpm;
          stepDuration = beatDuration / 4;
          noteDuration = stepDuration * noteDurationFactor
      in \<lparr>nodes = int n_layers + int n_layers + 2, startsAt = time,
          envelopeEnd = time + noteDuration, stopsAt = time + noteDuration + 0.1,
          cleanupDelay = (noteDuration + 0.2) * 1000\<rparr>)"

text \<open>
  A timer armed at time \<open>calledAt\<close> (in seconds) fires once its delay has passed, so no
  earlier than this. The clock's time source and the timers are taken to advance together,
  and a callback to run at the time its scheduling pass read.
\<close>

definition teardown_earliest :: "real \<Rightarrow> transient \<Rightarrow> real" where
  "teardown_earliest calledAt u = calledAt + cleanupDelay u / 1000"

chapter \<open>Properties\<close>

section \<open>Tempo clamping\<close>

text \<open>
  C8, at the input where the code fails it. \<open>Math.min(140, NaN)\<close> is \<open>NaN\<close> and so is
  \<open>Math.max(60, NaN)\<close>: \<open>setBpm(NaN)\<close> stores \<open>NaN\<close> as the tempo. \<open>getBpm\<close> returns it, the tick
  duration read by the next scheduling pass is \<open>NaN\<close>, and that pass fires nothing and puts
  \<open>NaN\<close> into \<open>lastScheduledTick\<close>. For every other argument, finite or infinite, the stored
  tempo is the argument clamped to \<open>[60, 140]\<close>, and the tick duration is computed from it;
  \<open>setBpm(500)\<close> gives 140 and \<open>setBpm(10)\<close> gives 60.
\<close>

theorem setBpm_stores_NaN:
  "getBpm (setBpm NaN c) = NaN
   \<and> tickDuration (setBpm NaN c) = NaN
   \<and> schedule hs now (s\<lparr>clk := setBpm NaN (clk s)\<rparr>)
       = s\<lparr>clk := setBpm NaN (clk s), lastScheduledTick := None\<rparr>
   \<and> getBpm (setBpm (Num x) c) = Num (max 60 (min 140 x))
   \<and> tickDuration (setBpm (Num x) c) = Num (60 / max 60 (min 140 x) / 4)
   \<and> getBpm (setBpm PInf c) = Num 140 \<and> getBpm (setBpm NInf c) = Num 60
   \<and> getBpm (setBpm (Num 500) c) = Num 140 \<and> getBpm (setBpm (Num 10) c) = Num 60"
proof -
  have nan: "getBpm (setBpm NaN c) = NaN \<and> tickDuration (setBpm NaN c) = NaN"
    by (simp add: setBpm_def getBpm_def tickDuration_def)
  have "tickDuration (setBpm NaN (clk s)) = NaN"
    by (simp add: setBpm_def tickDuration_def)
  then have pass: "schedule hs now (s\<lparr>clk := setBpm NaN (clk s)\<rparr>)
       = s\<lparr>clk := setBpm NaN (clk s), lastScheduledTick := None\<rparr>"
    by (simp add: schedule_def)
  have "max 60 (min 140 x) \<noteq> 0"
    by simp
  then have num: "getBpm (setBpm (Num x) c) = Num (max 60 (min 140 x))
     \<and> tickDuration (setBpm (Num x) c) = Num (60 / max 60 (min 140 x) / 4)"
    by (simp add: setBpm_def getBpm_def tickDuration_def ticksPerBeat_def max.commute)
  have inf: "getBpm (setBpm PInf c) = Num 140 \<and> getBpm (setBpm NInf c) = Num 60"
    by (simp add: setBpm_def getBpm_def)
  have ex: "getBpm (setBpm (Num 500) c) = Num 140 \<and> getBpm (setBpm (Num 10) c) = Num 60"
    by (simp add: setBpm_def getBpm_def)
  show ?thesis
    using nan pass num inf ex by blast
qed

section \<open>Doubles: which integers are exact\<close>

lemma round_half_even_int: "round_half_even (of_int m) = m"
  by (simp add: round_half_even_def)

lemma two_powi_nonpos: "j \<le> 0 \<Longrightarrow> (2::real) powi j = 1 / 2 ^ nat (- j)"
  by (simp add: power_int_def inverse_eq_divide power_one_over)

text \<open>A real that is a multiple of the spacing around it, below the overflow bound, is a double.\<close>

lemma dbl_round_exactI:
  assumes nz: "x \<noteq> 0"
    and mult: "of_int (round_half_even (\<bar>x\<bar> / ulp_of \<bar>x\<bar>)) * ulp_of \<bar>x\<bar> = \<bar>x\<bar>"
    and bound: "\<bar>x\<bar> < 2 powi 1024"
  shows "dbl_round x = Num x"
proof -
  have no: "\<not> 2 powi 1024 \<le> \<bar>x\<bar>"
    using bound by (simp only: not_le)
  have sg: "sgn x * \<bar>x\<bar> = x"
    by (simp add: sgn_mult_abs)
  show ?thesis
    by (simp only: dbl_round_def Let_def mult nz no if_False sg)
qed

lemma ulp_of_int:
  assumes k: "1 \<le> k"
  shows "ulp_of (of_int k) = 2 powi (bitlen k - 53)"
proof -
  have b1: "1 \<le> bitlen k"
    using k by (simp add: bitlen_ge_iff_power)
  have il: "ilog2 (of_int k) = bitlen k - 1"
    using k by (simp add: ilog2_def)
  have "max (bitlen k - 1) (- 1022) - 52 = bitlen k - 53"
    using b1 by simp
  then show ?thesis
    by (simp only: ulp_of_def il)
qed

text \<open>An integer of at most 53 bits is a double.\<close>

lemma dbl_round_pos_small:
  assumes k: "1 \<le> k" and small: "k < 2 ^ 53"
  shows "dbl_round (of_int k) = Num (of_int k)"
proof (rule dbl_round_exactI)
  show "(of_int k :: real) \<noteq> 0"
    using k by simp
  have ab: "\<bar>of_int k :: real\<bar> = of_int k"
    using k by simp
  have b53: "bitlen k - 53 \<le> 0"
    using small by (simp add: bitlen_le_iff_power)
  define j where "j = nat (- (bitlen k - 53))"
  have ulp: "ulp_of (of_int k) = 1 / 2 ^ j"
    unfolding j_def ulp_of_int [OF k] using b53 by (rule two_powi_nonpos)
  have q: "of_int k / (1 / 2 ^ j) = (of_int (k * 2 ^ j) :: real)"
    by simp
  have "of_int (round_half_even (of_int k / (1 / 2 ^ j))) * (1 / 2 ^ j) = (of_int k :: real)"
    by (simp only: q round_half_even_int) simp
  then show "of_int (round_half_even (\<bar>of_int k\<bar> / ulp_of \<bar>of_int k\<bar>)) * ulp_of \<bar>of_int k\<bar>
      = \<bar>of_int k :: real\<bar>"
    by (simp only: ab ulp)
  have "(of_int k :: real) < 2 ^ 53"
    using small by (metis of_int_less_numeral_power_cancel_iff)
  also have "\<dots> < 2 powi 1024"
    by simp
  finally show "\<bar>of_int k :: real\<bar> < 2 powi 1024"
    by (simp only: ab)
qed

lemma round_half_even_le: "of_int (round_half_even q) \<le> q + 1"
proof -
  have fl: "of_int \<lfloor>q\<rfloor> \<le> q"
    by simp
  have "of_int (round_half_even q) \<le> (of_int \<lfloor>q\<rfloor> :: real) + 1"
    by (simp add: round_half_even_def Let_def)
  then show ?thesis
    using fl by linarith
qed

lemma round_half_even_ge: "0 \<le> q \<Longrightarrow> 0 \<le> round_half_even q"
  by (simp add: round_half_even_def Let_def)

text \<open>
  Between \<open>2^53\<close> and \<open>2^54\<close> the doubles are the even integers: an integer there is rounded
  to twice the rounding of its half.
\<close>

lemma dbl_round_2p53:
  assumes lo: "2 ^ 53 \<le> k" and hi: "k < 2 ^ 54"
  shows "dbl_round (of_int k) = Num (of_int (round_half_even (of_int k / 2)) * 2)"
proof -
  have k: "1 \<le> k"
    using lo by simp
  have nz: "(of_int k :: real) \<noteq> 0"
    using k by simp
  have ab: "\<bar>of_int k :: real\<bar> = of_int k"
    using k by simp
  have bl: "bitlen k = 54"
    using bitlen_twopow_add_eq [of "k - 2 ^ 53" 53] lo hi by simp
  have ulp: "ulp_of (of_int k) = 2"
    by (simp add: ulp_of_int [OF k] bl)
  define r :: real where "r = of_int (round_half_even (of_int k / 2)) * 2"
  have "r \<le> (of_int k / 2 + 1) * 2"
    unfolding r_def using round_half_even_le [of "of_int k / 2"] by simp
  also have "\<dots> = of_int k + 2"
    by simp
  also have "\<dots> < 2 ^ 54 + 2"
    using hi by simp
  also have "\<dots> < 2 powi 1024"
    by simp
  finally have no: "\<not> 2 powi 1024 \<le> r"
    by (simp only: not_le)
  have "0 \<le> r"
    unfolding r_def using round_half_even_ge [of "of_int k / 2"] k by simp
  have sg: "sgn (of_int k :: real) * r = r"
    using k by simp
  have "dbl_round (of_int k) = Num r"
    by (simp only: dbl_round_def Let_def ab ulp nz no if_False sg r_def [symmetric])
  then show ?thesis
    by (simp only: r_def)
qed

lemma round_half_even_half_odd:
  "round_half_even (of_int (2 * h + 1) / 2) = (if even h then h else h + 1)"
proof -
  have eq: "(of_int (2 * h + 1) / 2 :: real) = of_int h + 1 / 2"
    by simp
  have fl: "\<lfloor>of_int h + 1 / 2 :: real\<rfloor> = h"
    by (simp add: floor_eq_iff)
  show ?thesis
    by (simp only: eq round_half_even_def Let_def fl) simp
qed

text \<open>\<open>2^53 + 1\<close> lies halfway between two doubles and goes to the even one, \<open>2^53\<close>.\<close>

lemma dbl_round_2p53_plus_1: "dbl_round (of_int (2 ^ 53 + 1)) = Num (of_int (2 ^ 53))"
proof -
  have "round_half_even (of_int (2 * 2 ^ 52 + 1) / 2) = (if even ((2::int) ^ 52) then 2 ^ 52 else 2 ^ 52 + 1)"
    by (rule round_half_even_half_odd)
  then have "round_half_even (of_int (2 ^ 53 + 1) / 2) = 2 ^ 52"
    by simp
  moreover have "dbl_round (of_int (2 ^ 53 + 1))
      = Num (of_int (round_half_even (of_int (2 ^ 53 + 1) / 2)) * 2)"
    by (rule dbl_round_2p53) simp_all
  ultimately show ?thesis
    by simp
qed

text \<open>An even integer between \<open>2^53\<close> and \<open>2^54\<close> is a double.\<close>

lemma dbl_round_2p53_even:
  assumes lo: "2 ^ 53 \<le> k" and hi: "k < 2 ^ 54" and ev: "even k"
  shows "dbl_round (of_int k) = Num (of_int k)"
proof -
  obtain h where h: "k = 2 * h"
    using ev by (auto elim: evenE)
  have "of_int (round_half_even (of_int k / 2)) * 2 = (of_int k :: real)"
    using round_half_even_int [of h] by (simp add: h)
  then show ?thesis
    using dbl_round_2p53 [OF lo hi] by simp
qed

lemma dbl_round_minus: "dbl_round (- x) = num_neg (dbl_round x)"
  by (simp add: dbl_round_def Let_def sgn_minus)

text \<open>Every integer of magnitude at most \<open>2^53\<close> is a double.\<close>

lemma dbl_round_int:
  assumes "\<bar>k\<bar> \<le> 2 ^ 53"
  shows "dbl_round (of_int k) = Num (of_int k)"
proof -
  have pos: "dbl_round (of_int m) = Num (of_int m)" if "0 \<le> m" "m \<le> 2 ^ 53" for m :: int
  proof -
    show ?thesis
    proof (cases "m = 0")
      case True
      then show ?thesis by (simp add: dbl_round_def)
    next
      case nz: False
      show ?thesis
      proof (cases "m = 2 ^ 53")
        case True
        have "dbl_round (of_int (2 ^ 53)) = Num (of_int (2 ^ 53))"
          by (rule dbl_round_2p53_even) simp_all
        then show ?thesis by (simp only: True)
      next
        case False
        have "1 \<le> m"
          using that(1) nz by linarith
        moreover have "m < 2 ^ 53"
          using that(2) False by (simp add: less_le)
        ultimately show ?thesis by (rule dbl_round_pos_small)
      qed
    qed
  qed
  show ?thesis
  proof (cases "0 \<le> k")
    case True
    then show ?thesis using assms by (intro pos) simp_all
  next
    case False
    then have "dbl_round (of_int (- k)) = Num (of_int (- k))"
      using assms by (intro pos) simp_all
    then have "num_neg (dbl_round (of_int k)) = Num (- of_int k)"
      by (simp add: dbl_round_minus)
    then show ?thesis
      by (cases "dbl_round (of_int k)") simp_all
  qed
qed

section \<open>The node tracker\<close>

lemma num_add_nat:
  assumes "a + b \<le> 2 ^ 53"
  shows "num_add (Num (of_nat a)) (Num (of_nat b)) = Num (of_nat (a + b))"
proof -
  have "int (a + b) \<le> int (2 ^ 53)"
    using assms by (simp only: of_nat_le_iff)
  then have "\<bar>int (a + b)\<bar> \<le> 2 ^ 53"
    by simp
  then have "dbl_round (of_int (int (a + b))) = Num (of_int (int (a + b)))"
    by (rule dbl_round_int)
  then show ?thesis
    by simp
qed

lemma num_sub_nat:
  assumes "a \<le> 2 ^ 53" "b \<le> 2 ^ 53"
  shows "num_sub (Num (of_nat a)) (Num (of_nat b)) = Num (of_int (int a - int b))"
proof -
  have "int a \<le> int (2 ^ 53)" "int b \<le> int (2 ^ 53)"
    using assms by (simp_all only: of_nat_le_iff)
  then have "int a \<le> 2 ^ 53" "int b \<le> 2 ^ 53"
    by simp_all
  then have "\<bar>int a - int b\<bar> \<le> 2 ^ 53"
    by linarith
  then have "dbl_round (of_int (int a - int b)) = Num (of_int (int a - int b))"
    by (rule dbl_round_int)
  then show ?thesis
    by (simp add: num_sub_def)
qed

lemma counter_run_Cons: "counter_run (c # calls) nc = counter_run calls (counter_step c nc)"
  by (simp add: counter_run_def)

text \<open>While the totals stay within \<open>2^53\<close>, the tracker's sums of whole counts are exact.\<close>

lemma counter_run_exact:
  assumes "create_counts calls = map (\<lambda>n. Num (of_nat n)) cs"
    and "cleanup_counts calls = map (\<lambda>n. Num (of_nat n)) ds"
    and "created nc = Num (of_nat c0)" and "cleaned nc = Num (of_nat d0)"
    and "c0 + sum_list cs \<le> 2 ^ 53" and "d0 + sum_list ds \<le> 2 ^ 53"
  shows "created (counter_run calls nc) = Num (of_nat (c0 + sum_list cs))
     \<and> cleaned (counter_run calls nc) = Num (of_nat (d0 + sum_list ds))"
  using assms
proof (induction calls arbitrary: nc cs ds c0 d0)
  case Nil
  then show ?case by (simp add: counter_run_def)
next
  case (Cons c calls)
  show ?case
  proof (cases c)
    case (Create a)
    obtain n cs' where cs: "cs = n # cs'" "count_arg a = Num (of_nat n)"
        "create_counts calls = map (\<lambda>n. Num (of_nat n)) cs'"
      using Cons.prems(1) Create by (cases cs) auto
    have le: "c0 + n \<le> 2 ^ 53"
      using Cons.prems(5) cs(1) by simp
    have cr: "created (create a nc) = Num (of_nat (c0 + n))"
      using num_add_nat [OF le] by (simp add: create_def Cons.prems(3) cs(2))
    have cl: "cleaned (create a nc) = Num (of_nat d0)"
      by (simp add: create_def Cons.prems(4))
    have "created (counter_run calls (create a nc)) = Num (of_nat (c0 + n + sum_list cs'))
       \<and> cleaned (counter_run calls (create a nc)) = Num (of_nat (d0 + sum_list ds))"
      using Cons.prems(2) Cons.prems(5) Cons.prems(6) Create cs
      by (intro Cons.IH [OF cs(3) _ cr cl]) (simp_all add: add.assoc)
    then show ?thesis
      by (simp add: counter_run_Cons Create cs(1) add.assoc)
  next
    case (Cleanup a)
    obtain n ds' where ds: "ds = n # ds'" "count_arg a = Num (of_nat n)"
        "cleanup_counts calls = map (\<lambda>n. Num (of_nat n)) ds'"
      using Cons.prems(2) Cleanup by (cases ds) auto
    have le: "d0 + n \<le> 2 ^ 53"
      using Cons.prems(6) ds(1) by simp
    have cl: "cleaned (cleanup a nc) = Num (of_nat (d0 + n))"
      using num_add_nat [OF le] by (simp add: cleanup_def Cons.prems(4) ds(2))
    have cr: "created (cleanup a nc) = Num (of_nat c0)"
      by (simp add: cleanup_def Cons.prems(3))
    have "created (counter_run calls (cleanup a nc)) = Num (of_nat (c0 + sum_list cs))
       \<and> cleaned (counter_run calls (cleanup a nc)) = Num (of_nat (d0 + n + sum_list ds'))"
      using Cons.prems(1) Cons.prems(5) Cons.prems(6) Cleanup ds
      by (intro Cons.IH [OF _ ds(3) cr cl]) (simp_all add: add.assoc)
    then show ?thesis
      by (simp add: counter_run_Cons Cleanup ds(1) add.assoc)
  qed
qed

lemma create_counts_take:
  "create_counts (take k calls) = take (length (create_counts (take k calls))) (create_counts calls)"
proof (induction calls arbitrary: k)
  case Nil
  show ?case by simp
next
  case (Cons c calls)
  show ?case
  proof (cases k)
    case 0
    then show ?thesis by simp
  next
    case (Suc k')
    show ?thesis
      using Cons.IH [of k'] by (cases c) (simp_all add: Suc)
  qed
qed

lemma cleanup_counts_take:
  "cleanup_counts (take k calls) = take (length (cleanup_counts (take k calls))) (cleanup_counts calls)"
proof (induction calls arbitrary: k)
  case Nil
  show ?case by simp
next
  case (Cons c calls)
  show ?case
  proof (cases k)
    case 0
    then show ?thesis by simp
  next
    case (Suc k')
    show ?thesis
      using Cons.IH [of k'] by (cases c) (simp_all add: Suc)
  qed
qed

lemma sum_list_take_le: "sum_list (take i xs) \<le> sum_list (xs :: nat list)"
proof -
  have "sum_list xs = sum_list (take i xs) + sum_list (drop i xs)"
    by (metis append_take_drop_id sum_list_append)
  then show ?thesis by simp
qed

text \<open>
  C7, amended. Let the counts passed to \<open>create\<close> and \<open>cleanup\<close> be whole numbers of nodes
  (non-negative integers), the total created and the total cleaned each at most \<open>2^53\<close>.
  Then on a fresh counter, after every prefix of the calls, \<open>getStats\<close> reports the exact
  totals created and cleaned so far and \<open>active\<close> as their difference; and when the counts
  created and the counts cleaned match one to one (as multisets; the order of the calls
  plays no part), \<open>getActive\<close> is 0 after the calls.
\<close>

theorem tracker_balanced:
  assumes creates: "create_counts calls = map (\<lambda>n. Num (of_nat n)) cs"
    and cleanups: "cleanup_counts calls = map (\<lambda>n. Num (of_nat n)) ds"
    and bound: "sum_list cs \<le> 2 ^ 53"
    and bound': "sum_list ds \<le> 2 ^ 53"
  shows "(mset cs = mset ds \<longrightarrow> getActive (counter_run calls new_NodeCounter) = Num 0)
     \<and> stat_created (getStats (counter_run (take k calls) new_NodeCounter))
         = Num (of_nat (sum_list (take (length (create_counts (take k calls))) cs)))
     \<and> stat_cleaned (getStats (counter_run (take k calls) new_NodeCounter))
         = Num (of_nat (sum_list (take (length (cleanup_counts (take k calls))) ds)))
     \<and> stat_active (getStats (counter_run (take k calls) new_NodeCounter))
         = Num (of_int (int (sum_list (take (length (create_counts (take k calls))) cs))
                        - int (sum_list (take (length (cleanup_counts (take k calls))) ds))))"
proof -
  have fresh: "created new_NodeCounter = Num (of_nat 0)" "cleaned new_NodeCounter = Num (of_nat 0)"
    by (simp_all add: new_NodeCounter_def)
  have whole: "created (counter_run calls new_NodeCounter) = Num (of_nat (0 + sum_list cs))
     \<and> cleaned (counter_run calls new_NodeCounter) = Num (of_nat (0 + sum_list ds))"
    using bound bound' by (intro counter_run_exact [OF creates cleanups fresh]) simp_all
  have diff: "num_sub (Num (of_nat (sum_list cs))) (Num (of_nat (sum_list ds)))
      = Num (of_int (int (sum_list cs) - int (sum_list ds)))"
    using bound bound' by (rule num_sub_nat)
  have 1: "getActive (counter_run calls new_NodeCounter) = Num 0" if matched: "mset cs = mset ds"
  proof -
    have "sum_mset (mset cs) = sum_mset (mset ds)"
      using matched by simp
    then have eq: "sum_list cs = sum_list ds"
      by (simp add: sum_mset_sum_list)
    show ?thesis
      using whole diff by (simp add: getActive_def eq)
  qed
  define i where "i = length (create_counts (take k calls))"
  define j where "j = length (cleanup_counts (take k calls))"
  have pc: "create_counts (take k calls) = map (\<lambda>n. Num (of_nat n)) (take i cs)"
    using create_counts_take [of k calls] by (simp add: i_def creates take_map)
  have pd: "cleanup_counts (take k calls) = map (\<lambda>n. Num (of_nat n)) (take j ds)"
    using cleanup_counts_take [of k calls] by (simp add: j_def cleanups take_map)
  have bi: "sum_list (take i cs) \<le> 2 ^ 53"
    using sum_list_take_le [of i cs] bound by linarith
  have bj: "sum_list (take j ds) \<le> 2 ^ 53"
    using sum_list_take_le [of j ds] bound' by linarith
  have part: "created (counter_run (take k calls) new_NodeCounter) = Num (of_nat (0 + sum_list (take i cs)))
     \<and> cleaned (counter_run (take k calls) new_NodeCounter) = Num (of_nat (0 + sum_list (take j ds)))"
    using bi bj by (intro counter_run_exact [OF pc pd fresh]) simp_all
  have sub: "num_sub (Num (of_nat (sum_list (take i cs)))) (Num (of_nat (sum_list (take j ds))))
      = Num (of_int (int (sum_list (take i cs)) - int (sum_list (take j ds))))"
    using bi bj by (rule num_sub_nat)
  have 2: "stat_created (getStats (counter_run (take k calls) new_NodeCounter))
         = Num (of_nat (sum_list (take i cs)))
     \<and> stat_cleaned (getStats (counter_run (take k calls) new_NodeCounter))
         = Num (of_nat (sum_list (take j ds)))
     \<and> stat_active (getStats (counter_run (take k calls) new_NodeCounter))
         = Num (of_int (int (sum_list (take i cs)) - int (sum_list (take j ds))))"
    using part sub by (simp add: getStats_def)
  show ?thesis
    using 1 2 unfolding i_def j_def by blast
qed

text \<open>
  The claim as stated fails once a total passes \<open>2^53\<close>, where not every integer is a
  double. After \<open>create(2^53)\<close>, each of the two calls \<open>create()\<close> adds 1 and the sum is rounded
  back to \<open>2^53\<close>. The matching calls \<open>cleanup()\<close>, \<open>cleanup()\<close>, \<open>cleanup(2^53)\<close> add up to
  \<open>2^53 + 2\<close>, which is a double. Every create is matched by a cleanup with the same count,
  and \<open>getActive\<close> returns -2.
\<close>

theorem tracker_balanced_counterexample:
  "mset (create_counts [Create (Some (Num (2 ^ 53))), Create None, Create None,
                        Cleanup None, Cleanup None, Cleanup (Some (Num (2 ^ 53)))])
     = mset (cleanup_counts [Create (Some (Num (2 ^ 53))), Create None, Create None,
                        Cleanup None, Cleanup None, Cleanup (Some (Num (2 ^ 53)))])
   \<and> getActive (counter_run [Create (Some (Num (2 ^ 53))), Create None, Create None,
                        Cleanup None, Cleanup None, Cleanup (Some (Num (2 ^ 53)))] new_NodeCounter)
     = Num (- 2)"
proof -
  note r0 = dbl_round_int [of "2 ^ 53", simplified]
  note r1 = dbl_round_2p53_plus_1 [simplified]
  note r2 = dbl_round_int [of 1, simplified] dbl_round_int [of 2, simplified]
  note r3 = dbl_round_2p53_even [of "2 ^ 53 + 2", simplified]
  note r4 = dbl_round_int [of "- 2", simplified]
  show ?thesis
    by (simp add: counter_run_def create_def cleanup_def count_arg_def getActive_def num_sub_def
        new_NodeCounter_def r0 r1 r2 r3 r4)
qed

theorem tracker_balanced_witness:
  "create_counts [Create (Some (Num 2)), Create None, Cleanup (Some (Num 2)), Create (Some (Num 6)),
        Cleanup (Some (Num 6)), Cleanup None] = map (\<lambda>n. Num (of_nat n)) [2, 1, 6]
   \<and> cleanup_counts [Create (Some (Num 2)), Create None, Cleanup (Some (Num 2)), Create (Some (Num 6)),
        Cleanup (Some (Num 6)), Cleanup None] = map (\<lambda>n. Num (of_nat n)) [2, 6, 1]
   \<and> mset [2, 1, 6 :: nat] = mset [2, 6, 1]
   \<and> getActive (counter_run [Create (Some (Num 2)), Create None, Cleanup (Some (Num 2)),
        Create (Some (Num 6)), Cleanup (Some (Num 6)), Cleanup None] new_NodeCounter) = Num 0
   \<and> stat_active (getStats (counter_run (take 4 [Create (Some (Num 2)), Create None,
        Cleanup (Some (Num 2)), Create (Some (Num 6)), Cleanup (Some (Num 6)), Cleanup None])
        new_NodeCounter)) = Num 7"
proof -
  have c: "create_counts [Create (Some (Num 2)), Create None, Cleanup (Some (Num 2)),
        Create (Some (Num 6)), Cleanup (Some (Num 6)), Cleanup None] = map (\<lambda>n. Num (of_nat n)) [2, 1, 6]"
    by (simp add: count_arg_def)
  have d: "cleanup_counts [Create (Some (Num 2)), Create None, Cleanup (Some (Num 2)),
        Create (Some (Num 6)), Cleanup (Some (Num 6)), Cleanup None] = map (\<lambda>n. Num (of_nat n)) [2, 6, 1]"
    by (simp add: count_arg_def)
  have m: "mset [2, 1, 6 :: nat] = mset [2, 6, 1]"
    by (simp add: add_mset_commute)
  have b: "sum_list [2, 1, 6 :: nat] \<le> 2 ^ 53" "sum_list [2, 6, 1 :: nat] \<le> 2 ^ 53"
    by simp_all
  show ?thesis
    using tracker_balanced [OF c d b, of 4] c d m
    by (simp add: count_arg_def)
qed

section \<open>The modulator\<close>



lemma mod_op_step_keeps_noise:
  "noise2D (snd (mod_op_step c m)) = noise2D m \<and> offset (snd (mod_op_step c m)) = offset m"
proof (cases c)
  case (CallSetter d)
  then show ?thesis
    by (cases d) (simp_all add: setBase_def setRange_def setSpeed_def)
qed simp_all

lemma mod_exec_keeps_noise:
  "noise2D (snd (mod_exec ops m)) = noise2D m \<and> offset (snd (mod_exec ops m)) = offset m"
proof (induction ops arbitrary: m)
  case Nil
  show ?case by simp
next
  case (Cons c cs)
  show ?case
    using Cons.IH [of "snd (mod_op_step c m)"] mod_op_step_keeps_noise [of c m]
    by (simp add: Let_def)
qed

lemma mod_exec_nth:
  "i < length ops \<Longrightarrow>
     fst (mod_exec ops m) ! i = fst (mod_op_step (ops ! i) (snd (mod_exec (take i ops) m)))"
proof (induction ops arbitrary: m i)
  case Nil
  then show ?case by simp
next
  case (Cons c cs)
  show ?case
  proof (cases i)
    case 0
    then show ?thesis by (simp add: Let_def)
  next
    case (Suc i')
    then have "i' < length cs"
      using Cons.prems by simp
    then show ?thesis
      using Cons.IH [of i' "snd (mod_op_step c m)"] by (simp add: Suc Let_def)
  qed
qed

lemma getValue_cong:
  assumes "noise2D m1 = noise2D m2" "offset m1 = offset m2" "config m1 = config m2"
  shows "getValue m1 t = getValue m2 t" "getNormalized m1 t = getNormalized m2 t"
  using assms by (simp_all add: getValue_def getNormalized_def)

text \<open>
  C5, amended. On one modulator, among any calls of the queries and the setters, two calls
  \<open>getValue(t)\<close> made with the same configuration in force return the same value, and so do
  two calls \<open>getNormalized(t)\<close>: the queries read the time, the configuration, the noise
  function and the offset, and no call assigns to the last two. Two modulators constructed
  with identical \<open>(base, range, speed, seed)\<close> and an identical random offset return identical
  values at every time, also at any later moment when their configurations are again equal,
  provided that a seed is given or that \<open>Math.random\<close> returned the same values to
  \<open>createNoise2D\<close> in the two constructions.
\<close>

theorem getValue_deterministic:
  "(i < length ops \<and> j < length ops
      \<and> (ops ! i = CallGetValue t \<and> ops ! j = CallGetValue t
          \<or> ops ! i = CallGetNormalized t \<and> ops ! j = CallGetNormalized t)
      \<and> config (snd (mod_exec (take i ops) m)) = config (snd (mod_exec (take j ops) m))
    \<longrightarrow> fst (mod_exec ops m) ! i = fst (mod_exec ops m) ! j)
   \<and> (seed cfg \<noteq> None \<or> rnd1 = rnd2
    \<longrightarrow> getValue (new_Modulator lib cfg rnd1 u) t' = getValue (new_Modulator lib cfg rnd2 u) t'
      \<and> getNormalized (new_Modulator lib cfg rnd1 u) t' = getNormalized (new_Modulator lib cfg rnd2 u) t'
      \<and> (config (snd (mod_exec ops1 (new_Modulator lib cfg rnd1 u)))
           = config (snd (mod_exec ops2 (new_Modulator lib cfg rnd2 u)))
         \<longrightarrow> getValue (snd (mod_exec ops1 (new_Modulator lib cfg rnd1 u))) t'
               = getValue (snd (mod_exec ops2 (new_Modulator lib cfg rnd2 u))) t'
             \<and> getNormalized (snd (mod_exec ops1 (new_Modulator lib cfg rnd1 u))) t'
               = getNormalized (snd (mod_exec ops2 (new_Modulator lib cfg rnd2 u))) t'))"
proof -
  have one: "fst (mod_exec ops m) ! i = fst (mod_exec ops m) ! j"
    if calls: "i < length ops" "j < length ops"
      and queries: "ops ! i = CallGetValue t \<and> ops ! j = CallGetValue t
          \<or> ops ! i = CallGetNormalized t \<and> ops ! j = CallGetNormalized t"
      and unchanged: "config (snd (mod_exec (take i ops) m)) = config (snd (mod_exec (take j ops) m))"
  proof -
    define mi where "mi = snd (mod_exec (take i ops) m)"
    define mj where "mj = snd (mod_exec (take j ops) m)"
    have n: "noise2D mi = noise2D mj" "offset mi = offset mj"
      by (simp_all add: mi_def mj_def mod_exec_keeps_noise)
    have c: "config mi = config mj"
      using unchanged by (simp add: mi_def mj_def)
    have v: "getValue mi t = getValue mj t" "getNormalized mi t = getNormalized mj t"
      using n c by (rule getValue_cong)+
    have ri: "fst (mod_exec ops m) ! i = fst (mod_op_step (ops ! i) mi)"
      unfolding mi_def using calls(1) by (rule mod_exec_nth)
    have rj: "fst (mod_exec ops m) ! j = fst (mod_op_step (ops ! j) mj)"
      unfolding mj_def using calls(2) by (rule mod_exec_nth)
    show ?thesis
      using queries v by (auto simp add: ri rj)
  qed
  have two: "getValue (new_Modulator lib cfg rnd1 u) t' = getValue (new_Modulator lib cfg rnd2 u) t'
      \<and> getNormalized (new_Modulator lib cfg rnd1 u) t' = getNormalized (new_Modulator lib cfg rnd2 u) t'
      \<and> (config (snd (mod_exec ops1 (new_Modulator lib cfg rnd1 u)))
           = config (snd (mod_exec ops2 (new_Modulator lib cfg rnd2 u)))
         \<longrightarrow> getValue (snd (mod_exec ops1 (new_Modulator lib cfg rnd1 u))) t'
               = getValue (snd (mod_exec ops2 (new_Modulator lib cfg rnd2 u))) t'
             \<and> getNormalized (snd (mod_exec ops1 (new_Modulator lib cfg rnd1 u))) t'
               = getNormalized (snd (mod_exec ops2 (new_Modulator lib cfg rnd2 u))) t')"
    if same_draws: "seed cfg \<noteq> None \<or> rnd1 = rnd2"
  proof -
    have new: "new_Modulator lib cfg rnd1 u = new_Modulator lib cfg rnd2 u"
      using same_draws by (auto simp add: new_Modulator_def)
    define a where "a = snd (mod_exec ops1 (new_Modulator lib cfg rnd1 u))"
    define b where "b = snd (mod_exec ops2 (new_Modulator lib cfg rnd2 u))"
    have n: "noise2D a = noise2D b" "offset a = offset b"
      by (simp_all add: a_def b_def mod_exec_keeps_noise new)
    have "getValue a t' = getValue b t' \<and> getNormalized a t' = getNormalized b t'"
      if "config a = config b"
      using getValue_cong [OF n that] by simp
    then show ?thesis
      by (simp add: new a_def b_def)
  qed
  show ?thesis
    using one two by blast
qed

text \<open>
  The claim as stated fails without a seed, which is how every preset of the source builds
  its configuration. The library draws its table from the values of its \<open>random\<close> argument;
  let the noise be the first value drawn, mapped to \<open>[-1, 1]\<close>. Two modulators are
  constructed from the same seedless preset \<open>ModPresets.slow(0, 1)\<close> and are given the same
  offset, but \<open>Math.random\<close> returns 0 to the first construction and \<open>1/2\<close> to the second:
  at time 0 the first returns -1 and the second 0.
\<close>

theorem getValue_deterministic_counterexample:
  "seed (ModPresets_slow 0 1) = None
   \<and> config (new_Modulator (\<lambda>d x y. 2 * d 0 - 1) (ModPresets_slow 0 1) (\<lambda>i. 0) (1/2))
     = config (new_Modulator (\<lambda>d x y. 2 * d 0 - 1) (ModPresets_slow 0 1) (\<lambda>i. 1/2) (1/2))
   \<and> offset (new_Modulator (\<lambda>d x y. 2 * d 0 - 1) (ModPresets_slow 0 1) (\<lambda>i. 0) (1/2))
     = offset (new_Modulator (\<lambda>d x y. 2 * d 0 - 1) (ModPresets_slow 0 1) (\<lambda>i. 1/2) (1/2))
   \<and> getValue (new_Modulator (\<lambda>d x y. 2 * d 0 - 1) (ModPresets_slow 0 1) (\<lambda>i. 0) (1/2)) 0 = - 1
   \<and> getValue (new_Modulator (\<lambda>d x y. 2 * d 0 - 1) (ModPresets_slow 0 1) (\<lambda>i. 1/2) (1/2)) 0 = 0"
  by (simp add: new_Modulator_def ModPresets_slow_def getValue_def)

theorem getValue_deterministic_witness:
  "seed \<lparr>base = 10, range_m = 4, speed = 1/2, seed = Some (1/4)\<rparr> \<noteq> None
   \<and> config (snd (mod_exec [CallSetter (SetBase 3)]
        (new_Modulator (\<lambda>d x y. 2 * d 0 - 1) \<lparr>base = 10, range_m = 4, speed = 1/2, seed = Some (1/4)\<rparr>
           (\<lambda>i. 0) (1/2))))
     = config (snd (mod_exec [CallGetValue 1, CallSetter (SetBase 3)]
        (new_Modulator (\<lambda>d x y. 2 * d 0 - 1) \<lparr>base = 10, range_m = 4, speed = 1/2, seed = Some (1/4)\<rparr>
           (\<lambda>i. 3/4) (1/2))))
   \<and> getValue (snd (mod_exec [CallSetter (SetBase 3)]
        (new_Modulator (\<lambda>d x y. 2 * d 0 - 1) \<lparr>base = 10, range_m = 4, speed = 1/2, seed = Some (1/4)\<rparr>
           (\<lambda>i. 0) (1/2)))) 7 = 1
   \<and> getValue (snd (mod_exec [CallGetValue 1, CallSetter (SetBase 3)]
        (new_Modulator (\<lambda>d x y. 2 * d 0 - 1) \<lparr>base = 10, range_m = 4, speed = 1/2, seed = Some (1/4)\<rparr>
           (\<lambda>i. 3/4) (1/2)))) 7 = 1
   \<and> config (snd (mod_exec (take 0 [CallGetValue 2, CallSetter (SetBase 5), CallSetter (SetBase 10), CallGetValue 2])
        (new_Modulator (\<lambda>d x y. 2 * d 0 - 1) (ModPresets_slow 10 4) (\<lambda>i. 0) (1/2))))
     = config (snd (mod_exec (take 3 [CallGetValue 2, CallSetter (SetBase 5), CallSetter (SetBase 10), CallGetValue 2])
        (new_Modulator (\<lambda>d x y. 2 * d 0 - 1) (ModPresets_slow 10 4) (\<lambda>i. 0) (1/2))))
   \<and> fst (mod_exec [CallGetValue 2, CallSetter (SetBase 5), CallSetter (SetBase 10), CallGetValue 2]
        (new_Modulator (\<lambda>d x y. 2 * d 0 - 1) (ModPresets_slow 10 4) (\<lambda>i. 0) (1/2))) ! 0 = Some 6
   \<and> fst (mod_exec [CallGetValue 2, CallSetter (SetBase 5), CallSetter (SetBase 10), CallGetValue 2]
        (new_Modulator (\<lambda>d x y. 2 * d 0 - 1) (ModPresets_slow 10 4) (\<lambda>i. 0) (1/2))) ! 3 = Some 6"
  using getValue_deterministic [of 0
      "[CallGetValue 2, CallSetter (SetBase 5), CallSetter (SetBase 10), CallGetValue 2]" 3 2
      "new_Modulator (\<lambda>d x y. 2 * d 0 - 1) (ModPresets_slow 10 4) (\<lambda>i. 0) (1/2)"
      "\<lparr>base = 10, range_m = 4, speed = 1/2, seed = Some (1/4)\<rparr>" "\<lambda>i. 0" "\<lambda>i. 3/4"
      "\<lambda>d x y. 2 * d 0 - 1" "1/2" 7 "[CallSetter (SetBase 3)]" "[CallGetValue 1, CallSetter (SetBase 3)]"]
  by (simp add: new_Modulator_def ModPresets_slow_def getValue_def setBase_def Let_def)




section \<open>Layer stop and chord change\<close>

lemma try_catch_ignore_returns: "\<exists>r. try_catch_ignore body before = Inr r"
  by (cases body) (simp_all add: try_catch_ignore_def)

lemma pad_hard_stop_returns:
  "\<exists>r. pad_hard_stop stop_node oscs = Inr r \<and> length r = length oscs"
proof (induction oscs)
  case Nil
  show ?case by (simp add: pad_hard_stop_def)
next
  case (Cons osc oscs)
  obtain r where r: "pad_hard_stop stop_node oscs = Inr r" "length r = length oscs"
    using Cons.IH by blast
  obtain osc' where osc': "try_catch_ignore (stop_node osc) osc = Inr osc'"
    using try_catch_ignore_returns [of "stop_node osc" osc] by blast
  have "pad_hard_stop stop_node (osc # oscs) = Inr (osc' # r)"
    using r(1) osc' by (simp add: pad_hard_stop_def)
  then show ?case using r(2) by simp
qed

text \<open>
  C9. The deferred hard-stop callbacks of the texture, pad and beat layers return normally
  whatever state the sources are in when the timer fires and whatever their \<open>stop()\<close> does,
  throwing included; the pad layer's callback tries every oscillator. With the Web Audio
  rule, \<open>stop()\<close> on a source that never started throws, and the callbacks absorb it.
\<close>

theorem hard_stop_never_throws:
  "(\<exists>r. texture_hard_stop stop_node noiseSource = Inr r)
   \<and> (\<exists>r. pad_hard_stop stop_node oscs = Inr r \<and> length r = length oscs)
   \<and> (\<exists>r. beat_hard_stop stop_node subOsc = Inr r)
   \<and> web_audio_stop Unstarted = Inl InvalidStateError
   \<and> texture_hard_stop web_audio_stop (Some Unstarted) = Inr (Some Unstarted)
   \<and> pad_hard_stop web_audio_stop [Unstarted, Playing, Ended] = Inr [Unstarted, Ended, Ended]
   \<and> beat_hard_stop web_audio_stop (Some Ended) = Inr (Some Ended)"
proof -
  have t: "\<exists>r. texture_hard_stop stop_node noiseSource = Inr r"
    unfolding texture_hard_stop_def by (rule try_catch_ignore_returns)
  have b: "\<exists>r. beat_hard_stop stop_node subOsc = Inr r"
    unfolding beat_hard_stop_def by (rule try_catch_ignore_returns)
  have p: "\<exists>r. pad_hard_stop stop_node oscs = Inr r \<and> length r = length oscs"
    by (rule pad_hard_stop_returns)
  have c: "web_audio_stop Unstarted = Inl InvalidStateError
     \<and> texture_hard_stop web_audio_stop (Some Unstarted) = Inr (Some Unstarted)
     \<and> pad_hard_stop web_audio_stop [Unstarted, Playing, Ended] = Inr [Unstarted, Ended, Ended]
     \<and> beat_hard_stop web_audio_stop (Some Ended) = Inr (Some Ended)"
    by (simp add: texture_hard_stop_def pad_hard_stop_def beat_hard_stop_def
        try_catch_ignore_def optional_stop_def)
  show ?thesis using t p b c by blast
qed

lemma intervals_nth:
  fixes u :: real
  assumes "0 \<le> u" "u < 1"
  shows "intervals ! nat \<lfloor>u * of_nat (length intervals)\<rfloor> \<in> {0, 5, 7, - 5}"
proof -
  define i where "i = nat \<lfloor>u * 4\<rfloor>"
  have "u * 4 < 4" using assms by simp
  then have "\<lfloor>u * 4\<rfloor> < 4" by (simp add: floor_less_iff)
  then have "i < 4" unfolding i_def by linarith
  then have "i = 0 \<or> i = 1 \<or> i = 2 \<or> i = 3" by arith
  then have "intervals ! i \<in> {0, 5, 7, - 5}"
    by (auto simp: intervals_def)
  then show ?thesis
    by (simp add: i_def intervals_def)
qed

text \<open>
  C10. The pad layer's deferred chord-mutation callback leaves \<open>engine.state\<close> as it found
  it, the root in particular: between its steps the root is the shifted root clamped to
  \<open>[36, 60]\<close>, from which the chord is rebuilt, and its last step writes the old root back.
  The interval \<open>onPhrase\<close> hands to the callback is one of 5, 7 and -5, never 0.
\<close>

theorem chord_mutation_restores_root:
  "root_note (fst (chord_mutation interval (st, p))) = root_note st
   \<and> fst (chord_mutation interval (st, p)) = st
   \<and> root_note (fst (chord_mutation_mid interval (st, p))) = max 36 (min 60 (root_note st + interval))
   \<and> 36 \<le> root_note (fst (chord_mutation_mid interval (st, p)))
   \<and> root_note (fst (chord_mutation_mid interval (st, p))) \<le> 60
   \<and> snd (chord_mutation interval (st, p))
       = startOscillators (buildChord (st\<lparr>root_note := max 36 (min 60 (root_note st + interval))\<rparr>) p)
   \<and> (0 \<le> u2 \<and> u2 < 1 \<and> snd (pad_onPhrase u1 u2 p0) = Some interval \<longrightarrow>
        interval \<in> {5, 7, - 5})"
proof -
  have frame: "fst (chord_mutation interval (st, p)) = st"
    by (simp add: chord_mutation_def chord_mutation_mid_def Let_def)
  have mid: "root_note (fst (chord_mutation_mid interval (st, p)))
       = max 36 (min 60 (root_note st + interval))"
    by (simp add: chord_mutation_mid_def Let_def)
  have chord: "snd (chord_mutation interval (st, p))
       = startOscillators (buildChord (st\<lparr>root_note := max 36 (min 60 (root_note st + interval))\<rparr>) p)"
    by (simp add: chord_mutation_def chord_mutation_mid_def Let_def)
  have sched: "0 \<le> u2 \<and> u2 < 1 \<and> snd (pad_onPhrase u1 u2 p0) = Some interval \<longrightarrow>
        interval \<in> {5, 7, - 5}"
  proof (intro impI, elim conjE)
    assume u: "0 \<le> u2" "u2 < 1" and s: "snd (pad_onPhrase u1 u2 p0) = Some interval"
    have "interval = intervals ! nat \<lfloor>u2 * of_nat (length intervals)\<rfloor> \<and> interval \<noteq> 0"
      using s by (simp add: pad_onPhrase_def Let_def split: if_splits)
    then show "interval \<in> {5, 7, - 5}"
      using intervals_nth [OF u] by auto
  qed
  show ?thesis
    using frame mid chord sched by simp
qed

theorem chord_mutation_restores_root_witness:
  "snd (pad_onPhrase (1/10) (1/2) \<lparr>currentChord = [], oscillators = [], phraseCount = 5\<rparr>) = Some 7
   \<and> root_note (fst (chord_mutation 7 (\<lparr>root_note = 57, scale = [0, 3, 5, 7, 10]\<rparr>,
        \<lparr>currentChord = [], oscillators = [], phraseCount = 0\<rparr>))) = 57
   \<and> root_note (fst (chord_mutation_mid 7 (\<lparr>root_note = 57, scale = [0, 3, 5, 7, 10]\<rparr>,
        \<lparr>currentChord = [], oscillators = [], phraseCount = 0\<rparr>))) = 60
   \<and> currentChord (snd (chord_mutation 7 (\<lparr>root_note = 57, scale = [0, 3, 5, 7, 10]\<rparr>,
        \<lparr>currentChord = [], oscillators = [], phraseCount = 0\<rparr>)))
       = [Some 60, Some 65, Some 70, Some 72]"
  using chord_mutation_restores_root [of 7 "\<lparr>root_note = 57, scale = [0, 3, 5, 7, 10]\<rparr>"
      "\<lparr>currentChord = [], oscillators = [], phraseCount = 0\<rparr>" "1/2" "1/10"
      "\<lparr>currentChord = [], oscillators = [], phraseCount = 5\<rparr>"]
  by (simp add: pad_onPhrase_def intervals_def chord_mutation_def chord_mutation_mid_def
      buildChord_def startOscillators_def js_nth_def js_plus_def Let_def)

section \<open>The clock: times and order of the callbacks\<close>

lemma fold_apply_cmd_startTime: "startTime (fold apply_cmd cmds c) = startTime c"
proof (induction cmds arbitrary: c)
  case Nil
  show ?case by simp
next
  case (Cons x xs)
  have "startTime (apply_cmd x c) = startTime c"
    by (cases x) (simp_all add: subscribe_def unsubscribe_def setBpm_def Let_def)
  then show ?case by (simp add: Cons.IH)
qed

lemma deliver_eq:
  "deliver hs tick t tib beat bib bar bip phrase l s =
     (fold apply_cmd (due_cmds hs tick t tib beat bib bar bip phrase l) (fst s),
      snd s @ due_calls hs tick t tib beat bib bar bip phrase l)"
  by (simp add: deliver_def invoke_def due_cmds_def due_calls_def due_def Let_def
      split: option.split)


lemma due_calls_same_tick:
  "list_all (\<lambda>e. ev_tick e = tick \<and> ev_time e = t)
     (due_calls hs tick t tib beat bib bar bip phrase l)"
  by (simp add: due_calls_def)

lemma forEach_from_appends:
  assumes P: "\<And>l. list_all P (due_calls hs tick t tib beat bib bar bip phrase l)"
  shows "\<exists>new. snd (forEach_from n k (deliver hs tick t tib beat bib bar bip phrase) s) = snd s @ new
           \<and> list_all P new
           \<and> startTime (fst (forEach_from n k (deliver hs tick t tib beat bib bar bip phrase) s))
               = startTime (fst s)"
proof (induction n arbitrary: k s)
  case 0
  show ?case by simp
next
  case (Suc n)
  let ?f = "deliver hs tick t tib beat bib bar bip phrase"
  let ?s' = "if k < length (listeners (fst s)) then ?f (listeners (fst s) ! k) s else s"
  have first: "\<exists>new. snd ?s' = snd s @ new \<and> list_all P new \<and> startTime (fst ?s') = startTime (fst s)"
    by (simp add: deliver_eq fold_apply_cmd_startTime P)
  then obtain new1 where n1: "snd ?s' = snd s @ new1" "list_all P new1"
      "startTime (fst ?s') = startTime (fst s)"
    by blast
  obtain new2 where n2: "snd (forEach_from n (Suc k) ?f ?s') = snd ?s' @ new2" "list_all P new2"
      "startTime (fst (forEach_from n (Suc k) ?f ?s')) = startTime (fst ?s')"
    using Suc.IH [of "Suc k" ?s'] by blast
  have "snd (forEach_from (Suc n) k ?f s) = snd s @ (new1 @ new2)"
    using n1(1) n2(1) by simp
  moreover have "list_all P (new1 @ new2)"
    using n1(2) n2(2) by simp
  moreover have "startTime (fst (forEach_from (Suc n) k ?f s)) = startTime (fst s)"
    using n1(3) n2(3) by simp
  ultimately show ?case by blast
qed

lemma fire_tick_appends:
  "\<exists>new. snd (fire_tick hs tt tick s) = snd s @ new
     \<and> list_all (\<lambda>e. ev_time e = startTime (fst s) + of_int (ev_tick e) * tt) new
     \<and> startTime (fst (fire_tick hs tt tick s)) = startTime (fst s)"
proof -
  define t where "t = startTime (fst s) + of_int tick * tt"
  define P where "P = (\<lambda>e::fired. ev_time e = startTime (fst s) + of_int (ev_tick e) * tt)"
  have P: "list_all P (due_calls hs tick t tib beat bib bar bip phrase l)" for tib beat bib bar bip phrase l
    by (simp add: due_calls_def P_def t_def)
  show ?thesis
    unfolding fire_tick_def forEach_def Let_def P_def [symmetric] t_def [symmetric]
    using forEach_from_appends [of P hs tick t, OF P] by simp
qed

lemma fold_fire_tick_appends:
  "\<exists>new. snd (fold (fire_tick hs tt) ticks s) = snd s @ new
     \<and> list_all (\<lambda>e. ev_time e = startTime (fst s) + of_int (ev_tick e) * tt) new
     \<and> startTime (fst (fold (fire_tick hs tt) ticks s)) = startTime (fst s)"
proof (induction ticks arbitrary: s)
  case Nil
  show ?case by simp
next
  case (Cons tick ticks)
  obtain new1 where n1: "snd (fire_tick hs tt tick s) = snd s @ new1"
      "list_all (\<lambda>e. ev_time e = startTime (fst s) + of_int (ev_tick e) * tt) new1"
      "startTime (fst (fire_tick hs tt tick s)) = startTime (fst s)"
    using fire_tick_appends [of hs tt tick s] by blast
  obtain new2 where n2:
      "snd (fold (fire_tick hs tt) ticks (fire_tick hs tt tick s)) = snd (fire_tick hs tt tick s) @ new2"
      "list_all (\<lambda>e. ev_time e = startTime (fst (fire_tick hs tt tick s)) + of_int (ev_tick e) * tt) new2"
      "startTime (fst (fold (fire_tick hs tt) ticks (fire_tick hs tt tick s)))
         = startTime (fst (fire_tick hs tt tick s))"
    using Cons.IH [of "fire_tick hs tt tick s"] by blast
  have "snd (fold (fire_tick hs tt) (tick # ticks) s) = snd s @ (new1 @ new2)"
    using n1(1) n2(1) by simp
  moreover have "list_all (\<lambda>e. ev_time e = startTime (fst s) + of_int (ev_tick e) * tt) (new1 @ new2)"
    using n1(2) n2(2) n1(3) by simp
  moreover have "startTime (fst (fold (fire_tick hs tt) (tick # ticks) s)) = startTime (fst s)"
    using n1(3) n2(3) by simp
  ultimately show ?case by blast
qed

text \<open>
  C2. Every callback a scheduling pass makes receives as its time the ideal start of the
  tick being fired, \<open>startTime + tick * (60 / bpm / 4)\<close> with the tempo the clock has when the
  pass begins; the time the pass reads (\<open>now\<close>) does not enter it. (The tempo is taken to be
  a finite number other than 0.) For one listener and one
  tick the calls are \<open>onTick\<close>, \<open>onBeat\<close>, \<open>onBar\<close>, \<open>onPhrase\<close> in this order, those that are
  due and that the listener has, all with that same time; on a phrase boundary a listener
  with all four callbacks receives all four.
\<close>

theorem pass_carries_ideal_time:
  assumes "bpm (clk s) = Num b" and "b \<noteq> 0"
  shows "take (length (trace s)) (trace (schedule hs now s)) = trace s
     \<and> list_all (\<lambda>e. ev_time e = startTime (clk s) + of_int (ev_tick e) * (60 / b / 4))
         (drop (length (trace s)) (trace (schedule hs now s)))
     \<and> snd (deliver hs tick t tickInBeat beat beatInBar bar barInPhrase phrase l q)
         = snd q @ due_calls hs tick t tickInBeat beat beatInBar bar barInPhrase phrase l
     \<and> snd (deliver (\<lambda>l k. Some (h l k)) tick t 0 beat 0 bar 0 phrase l q)
         = snd q @
           [\<lparr>ev_listener = l, ev_kind = OnTick, ev_index = tick, ev_tick = tick, ev_time = t\<rparr>,
            \<lparr>ev_listener = l, ev_kind = OnBeat, ev_index = beat, ev_tick = tick, ev_time = t\<rparr>,
            \<lparr>ev_listener = l, ev_kind = OnBar, ev_index = bar, ev_tick = tick, ev_time = t\<rparr>,
            \<lparr>ev_listener = l, ev_kind = OnPhrase, ev_index = phrase, ev_tick = tick, ev_time = t\<rparr>]"
proof -
  define tt where "tt = 60 / b / 4"
  define target where "target = \<lfloor>(now - startTime (clk s)) / tt + scheduleAhead / tt\<rfloor>"
  define ticks where "ticks = (case lastScheduledTick s of Some lastTick \<Rightarrow> [lastTick + 1..target] | None \<Rightarrow> [])"
  have td: "tickDuration (clk s) = Num tt"
    using assms by (simp add: tt_def tickDuration_def ticksPerBeat_def)
  have tr: "trace (schedule hs now s) = snd (fold (fire_tick hs tt) ticks (clk s, trace s))"
    by (simp add: schedule_def td Let_def target_def ticks_def split: option.split)
  obtain new where new:
      "snd (fold (fire_tick hs tt) ticks (clk s, trace s)) = trace s @ new"
      "list_all (\<lambda>e. ev_time e = startTime (clk s) + of_int (ev_tick e) * tt) new"
    using fold_fire_tick_appends [of hs tt ticks "(clk s, trace s)"]
    by auto
  have 1: "take (length (trace s)) (trace (schedule hs now s)) = trace s"
    by (simp add: tr new(1))
  have 2: "list_all (\<lambda>e. ev_time e = startTime (clk s) + of_int (ev_tick e) * (60 / b / 4))
         (drop (length (trace s)) (trace (schedule hs now s)))"
  proof -
    have "drop (length (trace s)) (trace (schedule hs now s)) = new"
      by (simp add: tr new(1))
    then show ?thesis using new(2) by (simp add: tt_def)
  qed
  have 3: "snd (deliver hs tick t tickInBeat beat beatInBar bar barInPhrase phrase l q)
         = snd q @ due_calls hs tick t tickInBeat beat beatInBar bar barInPhrase phrase l"
    by (simp add: deliver_eq)
  have 4: "snd (deliver (\<lambda>l k. Some (h l k)) tick t 0 beat 0 bar 0 phrase l q)
         = snd q @
           [\<lparr>ev_listener = l, ev_kind = OnTick, ev_index = tick, ev_tick = tick, ev_time = t\<rparr>,
            \<lparr>ev_listener = l, ev_kind = OnBeat, ev_index = beat, ev_tick = tick, ev_time = t\<rparr>,
            \<lparr>ev_listener = l, ev_kind = OnBar, ev_index = bar, ev_tick = tick, ev_time = t\<rparr>,
            \<lparr>ev_listener = l, ev_kind = OnPhrase, ev_index = phrase, ev_tick = tick, ev_time = t\<rparr>]"
    by (simp add: deliver_def invoke_def)
  show ?thesis using 1 2 3 4 by blast
qed

theorem pass_carries_ideal_time_witness:
  "bpm (subscribe 7 (new_Clock (Num 88))) = Num 88 \<and> (88::real) \<noteq> 0
   \<and> map (\<lambda>e. (ev_kind e, ev_index e, ev_time e))
       (trace (start (\<lambda>l k. Some (\<lambda>i t. [])) 0 0 (subscribe 7 (new_Clock (Num 88)))))
     = [(OnTick, 0, 0), (OnBeat, 0, 0), (OnBar, 0, 0), (OnPhrase, 0, 0)]
   \<and> list_all (\<lambda>e. ev_time e = 0 + of_int (ev_tick e) * (60 / 88 / 4))
       (trace (start (\<lambda>l k. Some (\<lambda>i t. [])) 0 0 (subscribe 7 (new_Clock (Num 88)))))"
  using pass_carries_ideal_time [of
      "\<lparr>clk = (subscribe 7 (new_Clock (Num 88)))\<lparr>startTime := 0, currentTick := 0, currentBeat := 0,
          currentBar := 0, currentPhrase := 0, intervalId := True\<rparr>,
        lastScheduledTick = Some (- 1), trace = []\<rparr>" 88 "\<lambda>l k. Some (\<lambda>i t. [])" 0]
  by (simp add: start_def schedule_def new_Clock_def subscribe_def
      tickDuration_def ticksPerBeat_def scheduleAhead_def fire_tick_def forEach_def deliver_def
      invoke_def upto.simps beatsPerBar_def barsPerPhrase_def)

section \<open>The clock: subscribing and unsubscribing during delivery\<close>

lemma indexOf_absent: "x \<notin> set xs \<Longrightarrow> indexOf xs x = - 1"
  by (induction xs) (auto simp: Let_def)

lemma indexOf_present:
  "x \<in> set xs \<Longrightarrow> 0 \<le> indexOf xs x \<and> nat (indexOf xs x) < length xs \<and> xs ! nat (indexOf xs x) = x"
proof (induction xs)
  case Nil
  then show ?case by simp
next
  case (Cons y ys)
  show ?case
  proof (cases "y = x")
    case True
    then show ?thesis by simp
  next
    case False
    with Cons.prems have "x \<in> set ys" by simp
    then have ih: "0 \<le> indexOf ys x" "nat (indexOf ys x) < length ys" "ys ! nat (indexOf ys x) = x"
      using Cons.IH by simp_all
    have "nat (indexOf ys x + 1) = Suc (nat (indexOf ys x))"
      using ih(1) by simp
    then show ?thesis
      using False ih by (simp add: Let_def)
  qed
qed

lemma splice1_indexOf: "x \<in> set xs \<Longrightarrow> splice1 xs (indexOf xs x) = remove1 x xs"
proof (induction xs)
  case Nil
  then show ?case by simp
next
  case (Cons y ys)
  show ?case
  proof (cases "y = x")
    case True
    then show ?thesis by (simp add: splice1_def)
  next
    case False
    with Cons.prems have mem: "x \<in> set ys" by simp
    have ge: "0 \<le> indexOf ys x" using indexOf_present [OF mem] by simp
    have "nat (indexOf ys x + 1) = Suc (nat (indexOf ys x))"
      using ge by simp
    then have "splice1 (y # ys) (indexOf (y # ys) x) = y # splice1 ys (indexOf ys x)"
      using False ge by (simp add: splice1_def Let_def)
    then show ?thesis
      using False Cons.IH [OF mem] by simp
  qed
qed

lemma listeners_unsubscribe: "listeners (unsubscribe b c) = remove1 b (listeners c)"
proof (cases "b \<in> set (listeners c)")
  case True
  then show ?thesis
    using indexOf_present [OF True] by (simp add: unsubscribe_def Let_def splice1_indexOf)
next
  case False
  then show ?thesis
    by (simp add: unsubscribe_def Let_def indexOf_absent remove1_idem)
qed


lemma forEach_from_add:
  "forEach_from (m + n) k f s = forEach_from n (k + m) f (forEach_from m k f s)"
  by (induction m arbitrary: k s) simp_all

text \<open>
  While the listeners visited make no clock calls, the iteration visits the array's
  elements one after the other and leaves the clock alone.
\<close>

lemma passive_run:
  assumes f: "\<And>l s. f l s = (fold apply_cmd (cm l) (fst s), snd s @ ca l)"
    and idle: "\<forall>l \<in> set (take n (drop k (listeners (fst s)))). cm l = []"
  shows "forEach_from n k f s
     = (fst s, snd s @ concat (map ca (take n (drop k (listeners (fst s))))))"
  using idle
proof (induction n arbitrary: k s)
  case 0
  show ?case by simp
next
  case (Suc n)
  let ?ls = "listeners (fst s)"
  show ?case
  proof (cases "k < length ?ls")
    case True
    have split: "take (Suc n) (drop k ?ls) = ?ls ! k # take n (drop (Suc k) ?ls)"
      using True by (simp add: Cons_nth_drop_Suc [symmetric])
    have quiet: "cm (?ls ! k) = []"
      using Suc.prems split by simp
    have step: "f (?ls ! k) s = (fst s, snd s @ ca (?ls ! k))"
      by (simp add: f quiet)
    have rest: "\<forall>l \<in> set (take n (drop (Suc k) (listeners (fst (fst s, snd s @ ca (?ls ! k)))))). cm l = []"
      using Suc.prems split by simp
    have "forEach_from (Suc n) k f s = forEach_from n (Suc k) f (fst s, snd s @ ca (?ls ! k))"
      using True step by simp
    also have "\<dots> = (fst s, (snd s @ ca (?ls ! k)) @ concat (map ca (take n (drop (Suc k) ?ls))))"
      using Suc.IH [OF rest] by simp
    finally show ?thesis
      by (simp add: split)
  next
    case False
    then have empty: "drop k ?ls = []" "drop (Suc k) ?ls = []" by simp_all
    have "forEach_from (Suc n) k f s = forEach_from n (Suc k) f s"
      using False by simp
    also have "\<dots> = (fst s, snd s @ concat (map ca (take n (drop (Suc k) ?ls))))"
      by (rule Suc.IH) (simp add: empty)
    finally show ?thesis
      by (simp add: empty)
  qed
qed

text \<open>
  One listener, at index \<open>i\<close>, makes clock calls; the listeners visited before and after it
  make none.
\<close>

lemma forEach_from_three:
  "forEach_from (i + (1 + m)) 0 f s
     = forEach_from m (Suc i) f (forEach_from 1 i f (forEach_from i 0 f s))"
proof -
  have "forEach_from (i + (1 + m)) 0 f s = forEach_from (1 + m) (0 + i) f (forEach_from i 0 f s)"
    by (rule forEach_from_add)
  also have "\<dots> = forEach_from m (0 + i + 1) f (forEach_from 1 (0 + i) f (forEach_from i 0 f s))"
    by (rule forEach_from_add)
  finally show ?thesis
    by (simp only: add_0 Suc_eq_plus1)
qed

lemma one_active_run:
  assumes f: "\<And>l s. f l s = (fold apply_cmd (cm l) (fst s), snd s @ ca l)"
    and i: "i < length (listeners c)"
    and bef: "\<forall>l \<in> set (take i (listeners c)). cm l = []"
    and aft: "\<forall>l \<in> set (take (length (listeners c) - Suc i)
                   (drop (Suc i) (listeners (fold apply_cmd (cm (listeners c ! i)) c)))). cm l = []"
  shows "forEach_from (length (listeners c)) 0 f (c, tr)
     = (fold apply_cmd (cm (listeners c ! i)) c,
        tr @ concat (map ca (take i (listeners c))) @ ca (listeners c ! i)
           @ concat (map ca (take (length (listeners c) - Suc i)
                (drop (Suc i) (listeners (fold apply_cmd (cm (listeners c ! i)) c))))))"
proof -
  define ls where "ls = listeners c"
  define m where "m = length ls - Suc i"
  define c' where "c' = fold apply_cmd (cm (ls ! i)) c"
  define tr1 where "tr1 = tr @ concat (map ca (take i ls))"
  define tr2 where "tr2 = tr1 @ ca (ls ! i)"
  have len: "length ls = i + (1 + m)"
    using i by (simp add: m_def ls_def)
  have bef': "\<forall>l \<in> set (take i (drop 0 (listeners (fst (c, tr))))). cm l = []"
    using bef by simp
  have p1: "forEach_from i 0 f (c, tr) = (c, tr1)"
    using passive_run [of f cm ca i 0 "(c, tr)", OF f bef'] by (simp add: tr1_def ls_def)
  have "forEach_from 1 i f (c, tr1) = f (ls ! i) (c, tr1)"
    using i by (simp add: ls_def)
  then have p2: "forEach_from 1 i f (c, tr1) = (c', tr2)"
    by (simp add: f c'_def tr2_def)
  have aft': "\<forall>l \<in> set (take m (drop (Suc i) (listeners (fst (c', tr2))))). cm l = []"
    unfolding m_def c'_def ls_def fst_conv by (rule aft)
  have p3: "forEach_from m (Suc i) f (c', tr2)
      = (c', tr2 @ concat (map ca (take m (drop (Suc i) (listeners c')))))"
    using passive_run [of f cm ca m "Suc i" "(c', tr2)", OF f aft'] by simp
  have "forEach_from (length ls) 0 f (c, tr)
      = forEach_from m (Suc i) f (forEach_from 1 i f (forEach_from i 0 f (c, tr)))"
    unfolding len by (rule forEach_from_three)
  also have "\<dots> = (c', tr2 @ concat (map ca (take m (drop (Suc i) (listeners c')))))"
    unfolding p1 p2 p3 ..
  finally show ?thesis
    by (simp add: ls_def m_def c'_def tr1_def tr2_def)
qed


lemma drop_prefix: "length xs = k \<Longrightarrow> drop k (xs @ ys) = ys"
  by simp

lemma length_remove1_le: "length (remove1 x xs) \<le> length xs"
  by (simp add: length_remove1)

lemma distinct_nth_not_in_rest:
  assumes "distinct xs" "i < length xs"
  shows "xs ! i \<notin> set (take i xs) \<and> xs ! i \<notin> set (drop (Suc i) xs)"
proof -
  have whole: "take i xs @ xs ! i # drop (Suc i) xs = xs"
    using assms(2) by (rule id_take_nth_drop [symmetric])
  have "distinct (take i xs @ xs ! i # drop (Suc i) xs)"
    unfolding whole by (rule assms(1))
  then show ?thesis by auto
qed

text \<open>
  C3, amended. While the clock delivers a tick, let one listener's callbacks make one clock
  call and the other listeners' callbacks none. If the call is \<open>subscribe\<close> (or \<open>setBpm\<close>),
  every listener subscribed when the delivery began receives its calls for the tick, once
  and in subscription order. If the call is \<open>unsubscribe\<close> of a listener that comes after
  the caller in the array (or of one that is not subscribed), every listener but the removed
  one does. Nothing is said of a listener that unsubscribes itself or an earlier one.
\<close>

theorem delivery_with_one_clock_call:
  assumes d: "distinct (listeners c)"
    and i: "i < length (listeners c)"
    and act: "due_cmds hs tick t tickInBeat beat beatInBar bar barInPhrase phrase (listeners c ! i) = [cmd]"
    and others: "\<forall>l \<in> set (listeners c). l \<noteq> listeners c ! i \<longrightarrow>
        due_cmds hs tick t tickInBeat beat beatInBar bar barInPhrase phrase l = []"
    and later: "\<forall>b. cmd = Unsubscribe b \<longrightarrow> b \<notin> set (take (Suc i) (listeners c))"
  shows "forEach (deliver hs tick t tickInBeat beat beatInBar bar barInPhrase phrase) (c, tr)
     = (apply_cmd cmd c,
        tr @ concat (map (due_calls hs tick t tickInBeat beat beatInBar bar barInPhrase phrase)
               (case cmd of Unsubscribe b \<Rightarrow> remove1 b (listeners c) | _ \<Rightarrow> listeners c)))"
proof -
  let ?f = "deliver hs tick t tickInBeat beat beatInBar bar barInPhrase phrase"
  let ?cm = "due_cmds hs tick t tickInBeat beat beatInBar bar barInPhrase phrase"
  let ?ca = "due_calls hs tick t tickInBeat beat beatInBar bar barInPhrase phrase"
  let ?ls = "listeners c"
  let ?n = "length ?ls"
  let ?visited = "case cmd of Unsubscribe b \<Rightarrow> remove1 b ?ls | _ \<Rightarrow> ?ls"
  define rest where "rest = take (?n - Suc i) (drop (Suc i) (listeners (apply_cmd cmd c)))"
  have f: "\<And>l s. ?f l s = (fold apply_cmd (?cm l) (fst s), snd s @ ?ca l)"
    by (rule deliver_eq)
  have whole: "?ls = take (Suc i) ?ls @ drop (Suc i) ?ls"
    by simp
  have rest: "set rest \<subseteq> set (drop (Suc i) ?ls) \<and> take (Suc i) ?ls @ rest = ?visited"
  proof (cases cmd)
    case (Subscribe x)
    have "rest = drop (Suc i) ?ls"
      using i by (simp add: rest_def Subscribe subscribe_def)
    then show ?thesis by (simp add: Subscribe)
  next
    case (SetBpm b)
    have "rest = drop (Suc i) ?ls"
      by (simp add: rest_def SetBpm setBpm_def)
    then show ?thesis by (simp add: SetBpm)
  next
    case (Unsubscribe b)
    have notin: "b \<notin> set (take (Suc i) ?ls)"
      using later Unsubscribe by simp
    have "remove1 b ?ls = remove1 b (take (Suc i) ?ls @ drop (Suc i) ?ls)"
      by simp
    also have "\<dots> = take (Suc i) ?ls @ remove1 b (drop (Suc i) ?ls)"
      using notin by (simp only: remove1_append if_False)
    finally have rm: "remove1 b ?ls = take (Suc i) ?ls @ remove1 b (drop (Suc i) ?ls)" .
    have len: "length (take (Suc i) ?ls) = Suc i"
      using i by simp
    have "drop (Suc i) (take (Suc i) ?ls @ remove1 b (drop (Suc i) ?ls)) = remove1 b (drop (Suc i) ?ls)"
      using len by (rule drop_prefix)
    then have dr: "drop (Suc i) (remove1 b ?ls) = remove1 b (drop (Suc i) ?ls)"
      unfolding rm .
    have "length (remove1 b (drop (Suc i) ?ls)) \<le> length (drop (Suc i) ?ls)"
      by (rule length_remove1_le)
    then have short: "length (remove1 b (drop (Suc i) ?ls)) \<le> ?n - Suc i"
      by simp
    have "rest = take (?n - Suc i) (drop (Suc i) (remove1 b ?ls))"
      by (simp add: rest_def Unsubscribe listeners_unsubscribe)
    also have "\<dots> = take (?n - Suc i) (remove1 b (drop (Suc i) ?ls))"
      by (simp only: dr)
    also have "\<dots> = remove1 b (drop (Suc i) ?ls)"
      using short by (rule take_all)
    finally have r: "rest = remove1 b (drop (Suc i) ?ls)" .
    have v: "take (Suc i) ?ls @ rest = remove1 b ?ls"
      by (simp only: r rm)
    have sub: "set rest \<subseteq> set (drop (Suc i) ?ls)"
      unfolding r by (rule set_remove1_subset)
    have "?visited = remove1 b ?ls"
      by (simp add: Unsubscribe)
    then show ?thesis
      using v sub by (simp only: simp_thms)
  qed
  have bef: "\<forall>l \<in> set (take i ?ls). ?cm l = []"
  proof
    fix l assume l: "l \<in> set (take i ?ls)"
    then have "l \<in> set ?ls" by (rule in_set_takeD)
    moreover have "l \<noteq> ?ls ! i"
      using distinct_nth_not_in_rest [OF d i] l by auto
    ultimately show "?cm l = []" using others by simp
  qed
  have aft: "\<forall>l \<in> set (take (?n - Suc i)
                   (drop (Suc i) (listeners (fold apply_cmd (?cm (?ls ! i)) c)))). ?cm l = []"
  proof
    fix l assume "l \<in> set (take (?n - Suc i)
                   (drop (Suc i) (listeners (fold apply_cmd (?cm (?ls ! i)) c))))"
    then have l: "l \<in> set rest" by (simp add: act rest_def)
    then have "l \<in> set (drop (Suc i) ?ls)" using rest by blast
    then have "l \<in> set ?ls" "l \<noteq> ?ls ! i"
      using distinct_nth_not_in_rest [OF d i] by (auto dest: in_set_dropD)
    then show "?cm l = []" using others by simp
  qed
  have run: "forEach_from ?n 0 ?f (c, tr)
      = (fold apply_cmd (?cm (?ls ! i)) c,
         tr @ concat (map ?ca (take i ?ls)) @ ?ca (?ls ! i)
            @ concat (map ?ca (take (?n - Suc i)
                (drop (Suc i) (listeners (fold apply_cmd (?cm (?ls ! i)) c))))))"
    using f i bef aft by (rule one_active_run)
  have c': "fold apply_cmd (?cm (?ls ! i)) c = apply_cmd cmd c"
    by (simp only: act fold_simps id_apply comp_apply)
  have start: "forEach ?f (c, tr) = forEach_from ?n 0 ?f (c, tr)"
    by (simp only: forEach_def fst_conv)
  have cat: "concat (map ?ca (take i ?ls)) @ ?ca (?ls ! i) @ concat (map ?ca rest)
      = concat (map ?ca (take (Suc i) ?ls @ rest))"
    using i by (simp add: take_Suc_conv_app_nth)
  have vis: "take (Suc i) ?ls @ rest = ?visited"
    using rest by (rule conjunct2)
  have "forEach ?f (c, tr)
      = (apply_cmd cmd c, tr @ concat (map ?ca (take i ?ls)) @ ?ca (?ls ! i) @ concat (map ?ca rest))"
    unfolding start run c' rest_def ..
  then show ?thesis
    unfolding cat vis .
qed


text \<open>
  The claim as stated fails when a listener unsubscribes itself. Listeners 1, 2 and 3 are
  subscribed in this order at 120 bpm, each with an \<open>onTick\<close> only, and that of listener 1
  calls \<open>unsubscribe\<close> on itself. The pass that \<open>start()\<close> runs at time 0 fires tick 0: after
  listener 1 has removed itself the array is \<open>[2, 3]\<close> and the iteration goes on at index 1,
  so listener 2 is passed over for tick 0. It receives tick 1 from the next pass.
\<close>

theorem delivery_with_one_clock_call_counterexample:
  "listeners (subscribe 3 (subscribe 2 (subscribe 1 (new_Clock (Num 120))))) = [1, 2, 3]
   \<and> map (\<lambda>e. (ev_listener e, ev_tick e))
       (trace (run (\<lambda>l k. if k = OnTick then Some (\<lambda>i t. if l = 1 then [Unsubscribe 1] else []) else None)
          [Pass 0.125]
          (start (\<lambda>l k. if k = OnTick then Some (\<lambda>i t. if l = 1 then [Unsubscribe 1] else []) else None)
             0 0 (subscribe 3 (subscribe 2 (subscribe 1 (new_Clock (Num 120))))))))
     = [(1, 0), (3, 0), (2, 1), (3, 1)]"
  by (simp add: run_def start_def schedule_def new_Clock_def subscribe_def unsubscribe_def splice1_def
      tickDuration_def ticksPerBeat_def scheduleAhead_def fire_tick_def forEach_def deliver_def
      invoke_def upto.simps beatsPerBar_def barsPerPhrase_def Let_def)

theorem delivery_with_one_clock_call_witness:
  "distinct (listeners (subscribe 3 (subscribe 2 (subscribe 1 (new_Clock (Num 120))))))
   \<and> map ev_listener (snd (forEach
        (deliver (\<lambda>l k. if k = OnTick then Some (\<lambda>i t. if l = 1 then [Unsubscribe 3] else []) else None)
           5 (5 / 8) 1 1 1 0 1 0)
        (subscribe 3 (subscribe 2 (subscribe 1 (new_Clock (Num 120)))), [])))
     = [1, 2]"
  using delivery_with_one_clock_call [of "subscribe 3 (subscribe 2 (subscribe 1 (new_Clock (Num 120))))" 0
      "\<lambda>l k. if k = OnTick then Some (\<lambda>i t. if l = 1 then [Unsubscribe 3] else []) else None"
      5 "5 / 8" 1 1 1 0 1 0 "Unsubscribe 3" "[]"]
  by (simp add: new_Clock_def subscribe_def due_cmds_def due_calls_def due_def)

section \<open>Inputs at which the code departs from the claims\<close>

text \<open>
  C1, at the input where the code fails it. A clock at 120 bpm with one listener is started
  at time 0; a pass at time 1 has fired ticks 0 to 8 when \<open>setBpm(60)\<close> is called. The pass at
  1.25 computes the target tick 5, fires nothing and stores 5 as the last scheduled tick;
  the pass at 1.5 then fires tick 6 a second time, now with the time 1.5.
\<close>

theorem tick_fired_again_after_setBpm:
  "map (\<lambda>e. (ev_tick e, ev_time e))
     (trace (run (\<lambda>l k. if k = OnTick then Some (\<lambda>i t. []) else None)
        [Pass 1, Call (SetBpm (Num 60)), Pass 1.25, Pass 1.5]
        (start (\<lambda>l k. if k = OnTick then Some (\<lambda>i t. []) else None) 0 0
           (subscribe 1 (new_Clock (Num 120))))))
   = [(0, 0), (1, 1/8), (2, 1/4), (3, 3/8), (4, 1/2), (5, 5/8), (6, 3/4), (7, 7/8), (8, 1),
      (6, 3/2)]"
  by code_simp

text \<open>
  C4, at an input where the code fails it. A clock at 120 bpm is started at time 0 with the
  beat layer as its listener, which has the Techno kit. The pass at time 0.41 fires tick 4
  with the time 0.5 (nine hundredths of a second ahead, within the lookahead). The layer
  plays a kick at 0.5, with a click whose envelope ends at 0.512; the click's teardown timer
  is armed during the pass with a delay of 50 ms, so it can fire from 0.46 on: before the
  click has started.
\<close>

theorem click_teardown_before_its_start:
  "map (\<lambda>e. (ev_tick e, ev_time e))
     (trace (run (\<lambda>l k. if k = OnTick \<or> k = OnBeat then Some (\<lambda>i t. []) else None)
        [Pass 0.3, Pass 0.41]
        (start (\<lambda>l k. if k = OnTick \<or> k = OnBeat then Some (\<lambda>i t. []) else None) 0 0
           (subscribe 1 (new_Clock (Num 120))))))
   = [(0, 0), (0, 0), (1, 1/8), (2, 1/4), (3, 3/8), (4, 1/2), (4, 1/2)]
   \<and> beat_onTick techno_kit (new_Modulator (\<lambda>d x y. 0) (ModPresets_slow 0.5 0.3) (\<lambda>i. 0) 0) 4 (1/2)
     = [\<lparr>nodes = 2, startsAt = 1/2, envelopeEnd = 7/10, stopsAt = 3/4, cleanupDelay = 300\<rparr>,
        \<lparr>nodes = 2, startsAt = 1/2, envelopeEnd = 64/125, stopsAt = 13/25, cleanupDelay = 50\<rparr>,
        \<lparr>nodes = 6, startsAt = 1/2, envelopeEnd = 27/50, stopsAt = 11/20, cleanupDelay = 100\<rparr>]
   \<and> teardown_earliest 0.41 (playClick (1/2) (0.55 * 0.4)) = 23/50
   \<and> teardown_earliest 0.41 (playClick (1/2) (0.55 * 0.4)) < startsAt (playClick (1/2) (0.55 * 0.4))
   \<and> startsAt (playClick (1/2) (0.55 * 0.4)) < envelopeEnd (playClick (1/2) (0.55 * 0.4))"
proof -
  have pass: "map (\<lambda>e. (ev_tick e, ev_time e))
     (trace (run (\<lambda>l k. if k = OnTick \<or> k = OnBeat then Some (\<lambda>i t. []) else None)
        [Pass 0.3, Pass 0.41]
        (start (\<lambda>l k. if k = OnTick \<or> k = OnBeat then Some (\<lambda>i t. []) else None) 0 0
           (subscribe 1 (new_Clock (Num 120))))))
   = [(0, 0), (0, 0), (1, 1/8), (2, 1/4), (3, 3/8), (4, 1/2), (4, 1/2)]"
    by code_simp
  have units: "beat_onTick techno_kit (new_Modulator (\<lambda>d x y. 0) (ModPresets_slow 0.5 0.3) (\<lambda>i. 0) 0) 4 (1/2)
     = [\<lparr>nodes = 2, startsAt = 1/2, envelopeEnd = 7/10, stopsAt = 3/4, cleanupDelay = 300\<rparr>,
        \<lparr>nodes = 2, startsAt = 1/2, envelopeEnd = 64/125, stopsAt = 13/25, cleanupDelay = 50\<rparr>,
        \<lparr>nodes = 6, startsAt = 1/2, envelopeEnd = 27/50, stopsAt = 11/20, cleanupDelay = 100\<rparr>]"
    by (simp add: beat_onTick_def techno_kit_def four_on_floor_def js_nth_def playKick_def
        playClick_def playNoiseTransient_def Let_def)
  have timer: "teardown_earliest 0.41 (playClick (1/2) (0.55 * 0.4)) = 23/50
     \<and> teardown_earliest 0.41 (playClick (1/2) (0.55 * 0.4)) < startsAt (playClick (1/2) (0.55 * 0.4))
     \<and> startsAt (playClick (1/2) (0.55 * 0.4)) < envelopeEnd (playClick (1/2) (0.55 * 0.4))"
    by (simp add: teardown_earliest_def playClick_def)
  show ?thesis using pass units timer by blast
qed

end
